theory Spec2Isabelle
  imports Complex_Main "HOL-Library.Multiset"
begin

section \<open>Route optimisation for a sensor tour (Lab-12, Task\_3.py)\<close>

text \<open>
  The module plans a closed tour through sensor sites: a nearest-neighbour heuristic
  (\<open>greedy_route_optimizer\<close>) and a genetic algorithm (\<open>genetic_algorithm\<close>) over
  permutations of the node indices.

  Conventions of the embedding.
  \<^item> Python floats are read as real numbers: \<open>math.sqrt\<close> is \<open>sqrt\<close>, sums and quotients
    are exact. Rounding, overflow to \<open>inf\<close> and NaN are outside the model.
  \<^item> A raised exception is the left summand of the result type \<open>py_error + 'a\<close>.
  \<^item> Node indices are Python ints (\<open>int\<close>), since the crossover uses \<open>-1\<close> as a marker
    and list subscripts accept negative numbers.
\<close>

subsection \<open>Exceptions and list subscripts\<close>

datatype py_error = IndexError | ValueError | ZeroDivisionError

type_synonym point = "real \<times> real"
type_synonym route = "int list"

text \<open>\<open>xs[i]\<close>: a negative subscript counts from the end, anything outside
  \<open>-len(xs) .. len(xs)-1\<close> raises \<open>IndexError\<close>.\<close>

definition subscript :: "'a list \<Rightarrow> int \<Rightarrow> py_error + 'a" where
  "subscript xs i =
     (if 0 \<le> i \<and> i < int (length xs) then Inr (xs ! nat i)
      else if i < 0 \<and> - int (length xs) \<le> i then Inr (xs ! nat (int (length xs) + i))
      else Inl IndexError)"

subsection \<open>Geometry helpers\<close>

definition euclidean_distance :: "point \<Rightarrow> point \<Rightarrow> real" where
  "euclidean_distance p1 p2 = sqrt ((fst p1 - fst p2)\<^sup>2 + (snd p1 - snd p2)\<^sup>2)"

text \<open>The \<open>for i in range(len(route) - 1)\<close> loop of \<open>calculate_total_distance\<close>, with the
  accumulator \<open>distance\<close>. The subscripts \<open>route[i]\<close> and \<open>route[i+1]\<close> are in range for
  every \<open>i\<close> of that range; \<open>coordinates[...]\<close> may raise.\<close>

fun edges_loop :: "route \<Rightarrow> point list \<Rightarrow> nat list \<Rightarrow> real \<Rightarrow> py_error + real" where
  "edges_loop route coordinates [] distance = Inr distance"
| "edges_loop route coordinates (i # rest) distance =
     (case subscript coordinates (route ! i) of
        Inl e \<Rightarrow> Inl e
      | Inr p1 \<Rightarrow>
          (case subscript coordinates (route ! Suc i) of
             Inl e \<Rightarrow> Inl e
           | Inr p2 \<Rightarrow>
               edges_loop route coordinates rest (distance + euclidean_distance p1 p2)))"

definition calculate_total_distance :: "route \<Rightarrow> point list \<Rightarrow> py_error + real" where
  "calculate_total_distance route coordinates =
     (if length route < 2 then Inr 0
      else
        (case edges_loop route coordinates [0..<length route - 1] 0 of
           Inl e \<Rightarrow> Inl e
         | Inr distance \<Rightarrow>
             (case subscript coordinates (route ! 0) of
                Inl e \<Rightarrow> Inl e
              | Inr start_point \<Rightarrow>
                  (case subscript coordinates (last route) of
                     Inl e \<Rightarrow> Inl e
                   | Inr end_point \<Rightarrow>
                       Inr (distance + euclidean_distance end_point start_point)))))"

text \<open>The tour length as the specification words it: the distances over consecutive
  pairs of the route, plus the edge from the last node back to the first (an empty route
  has no such edge). \<open>node_at\<close> is the coordinate a valid subscript denotes.\<close>

definition valid_index :: "'a list \<Rightarrow> int \<Rightarrow> bool" where
  "valid_index xs i = (- int (length xs) \<le> i \<and> i < int (length xs))"

definition node_at :: "point list \<Rightarrow> int \<Rightarrow> point" where
  "node_at coordinates i =
     (if 0 \<le> i then coordinates ! nat i else coordinates ! nat (int (length coordinates) + i))"

fun consecutive_sum :: "point list \<Rightarrow> route \<Rightarrow> real" where
  "consecutive_sum coordinates (a # b # rest) =
     euclidean_distance (node_at coordinates a) (node_at coordinates b)
       + consecutive_sum coordinates (b # rest)"
| "consecutive_sum coordinates rest = 0"

definition tour_length_spec :: "route \<Rightarrow> point list \<Rightarrow> real" where
  "tour_length_spec route coordinates =
     consecutive_sum coordinates route
       + (if route = [] then 0
          else euclidean_distance (node_at coordinates (last route))
                 (node_at coordinates (hd route)))"

subsection \<open>Greedy nearest-neighbour optimiser\<close>

text \<open>\<open>min_distance\<close> starts as \<open>float('inf')\<close>, here \<open>None\<close>: every distance is below it.\<close>

fun below :: "real \<Rightarrow> real option \<Rightarrow> bool" where
  "below d None = True"
| "below d (Some min_distance) = (d < min_distance)"

text \<open>The \<open>for neighbor in unvisited\<close> scan, with its two variables \<open>nearest_node\<close> and
  \<open>min_distance\<close>; it yields \<open>nearest_node\<close>.\<close>

fun nearest_scan ::
  "point list \<Rightarrow> int \<Rightarrow> int list \<Rightarrow> int option \<Rightarrow> real option \<Rightarrow> py_error + int option" where
  "nearest_scan coordinates current_node [] nearest_node min_distance = Inr nearest_node"
| "nearest_scan coordinates current_node (neighbor # rest) nearest_node min_distance =
     (case subscript coordinates current_node of
        Inl e \<Rightarrow> Inl e
      | Inr pc \<Rightarrow>
          (case subscript coordinates neighbor of
             Inl e \<Rightarrow> Inl e
           | Inr pn \<Rightarrow>
               (if below (euclidean_distance pc pn) min_distance
                then nearest_scan coordinates current_node rest
                       (Some neighbor) (Some (euclidean_distance pc pn))
                else nearest_scan coordinates current_node rest nearest_node min_distance)))"

text \<open>The \<open>while unvisited\<close> loop. \<open>unvisited.remove(x)\<close> deletes the first occurrence and
  raises \<open>ValueError\<close> when there is none (also for \<open>None\<close>, which a scan that never
  found a node would leave in \<open>nearest_node\<close>).\<close>

function greedy_loop :: "point list \<Rightarrow> int \<Rightarrow> int list \<Rightarrow> route \<Rightarrow> py_error + route" where
  "greedy_loop coordinates current_node unvisited route =
     (if unvisited = [] then Inr route
      else
        (case nearest_scan coordinates current_node unvisited None None of
           Inl e \<Rightarrow> Inl e
         | Inr None \<Rightarrow> Inl ValueError
         | Inr (Some nearest_node) \<Rightarrow>
             (if nearest_node \<in> set unvisited
              then greedy_loop coordinates nearest_node (remove1 nearest_node unvisited)
                     (route @ [nearest_node])
              else Inl ValueError)))"
  by pat_completeness auto
termination
  by (relation "measure (\<lambda>(coordinates, current_node, unvisited, route). length unvisited)")
     (auto simp: length_remove1 intro: diff_less length_pos_if_in_set)

declare greedy_loop.simps [simp del]

definition greedy_route_optimizer :: "point list \<Rightarrow> py_error + route" where
  "greedy_route_optimizer coordinates =
     greedy_loop coordinates 0 (map int [1..<length coordinates]) [0]"

subsection \<open>The random source\<close>

text \<open>
  The module draws from Python's global \<open>random\<close> state. Here the source is explicit: a
  list of raw draws, consumed from the front, that stands for the stream continued with
  zeros. Each library call below maps raw draws onto exactly the outcomes the call can
  have, so every outcome of a run is the outcome of some list, and a statement for all
  lists is a statement for all runs.
\<close>

type_synonym rng = "nat list"

fun draw :: "rng \<Rightarrow> nat \<times> rng" where
  "draw [] = (0, [])"
| "draw (r # g) = (r, g)"

text \<open>\<open>random.random()\<close>: a multiple of \<open>2\<^sup>-\<^sup>5\<^sup>3\<close> in \<open>[0, 1)\<close>.\<close>

definition random_float :: "rng \<Rightarrow> real \<times> rng" where
  "random_float g = (case draw g of (r, g') \<Rightarrow> (real (r mod 2 ^ 53) / 2 ^ 53, g'))"

text \<open>\<open>random.randint(a, b)\<close>: an integer of \<open>[a, b]\<close>; \<open>ValueError\<close> on an empty range.\<close>

definition randint :: "int \<Rightarrow> int \<Rightarrow> rng \<Rightarrow> py_error + (int \<times> rng)" where
  "randint a b g =
     (if b < a then Inl ValueError
      else (case draw g of (r, g') \<Rightarrow> Inr (a + int r mod (b - a + 1), g')))"

text \<open>\<open>random.sample(range(n), 2)\<close>: two different indices below \<open>n\<close>, in either order;
  \<open>ValueError\<close> when \<open>n < 2\<close>.\<close>

definition sample2 :: "nat \<Rightarrow> rng \<Rightarrow> py_error + ((nat \<times> nat) \<times> rng)" where
  "sample2 n g =
     (if n < 2 then Inl ValueError
      else
        (case draw g of (r1, g1) \<Rightarrow>
          (case draw g1 of (r2, g2) \<Rightarrow>
            Inr ((r1 mod n,
                  (if r2 mod (n - 1) < r1 mod n then r2 mod (n - 1) else Suc (r2 mod (n - 1)))),
                 g2))))"

text \<open>\<open>random.shuffle(x)\<close>: for \<open>i\<close> from \<open>len(x) - 1\<close> down to \<open>1\<close>, exchange \<open>x[i]\<close> with
  \<open>x[j]\<close> for a random \<open>j \<le> i\<close>.\<close>

fun shuffle_loop :: "nat list \<Rightarrow> 'a list \<Rightarrow> rng \<Rightarrow> 'a list \<times> rng" where
  "shuffle_loop [] x g = (x, g)"
| "shuffle_loop (i # rest) x g =
     (case draw g of (r, g') \<Rightarrow>
        shuffle_loop rest (x[i := x ! (r mod Suc i), r mod Suc i := x ! i]) g')"

definition shuffle :: "'a list \<Rightarrow> rng \<Rightarrow> 'a list \<times> rng" where
  "shuffle x g = shuffle_loop (rev [1..<length x]) x g"

text \<open>\<open>random.choices(population, k=k)\<close> without weights: \<open>k\<close> picks
  \<open>population[floor(random() * n)]\<close>; on an empty population the subscript raises.\<close>

fun choices :: "'a list \<Rightarrow> nat \<Rightarrow> rng \<Rightarrow> py_error + ('a list \<times> rng)" where
  "choices population 0 g = Inr ([], g)"
| "choices population (Suc k) g =
     (case random_float g of (u, g1) \<Rightarrow>
        (if nat \<lfloor>u * real (length population)\<rfloor> < length population
         then
           (case choices population k g1 of
              Inl e \<Rightarrow> Inl e
            | Inr (rest, g2) \<Rightarrow>
                Inr (population ! nat \<lfloor>u * real (length population)\<rfloor> # rest, g2))
         else Inl IndexError))"

text \<open>\<open>random.choices(population, weights=weights, k=k)\<close>: the weights are accumulated;
  a length mismatch and a total that is not positive raise \<open>ValueError\<close>, an empty
  population raises \<open>IndexError\<close> (at \<open>cum_weights[-1]\<close>); each pick is
  \<open>population[bisect(cum_weights, random() * total, 0, n - 1)]\<close>. On the cumulative sums of
  non-negative weights, which are nondecreasing, the bisection returns the first index
  below \<open>n - 1\<close> whose sum exceeds the key, and \<open>n - 1\<close> if there is none.\<close>

fun accumulate :: "real \<Rightarrow> real list \<Rightarrow> real list" where
  "accumulate acc [] = []"
| "accumulate acc (w # ws) = (acc + w) # accumulate (acc + w) ws"

definition bisect :: "real list \<Rightarrow> real \<Rightarrow> nat \<Rightarrow> nat" where
  "bisect cum_weights x hi = length (takeWhile (\<lambda>c. c \<le> x) (take hi cum_weights))"

fun weighted_picks :: "'a list \<Rightarrow> real list \<Rightarrow> nat \<Rightarrow> rng \<Rightarrow> 'a list \<times> rng" where
  "weighted_picks population cum_weights 0 g = ([], g)"
| "weighted_picks population cum_weights (Suc k) g =
     (case random_float g of (u, g1) \<Rightarrow>
        (case weighted_picks population cum_weights k g1 of (rest, g2) \<Rightarrow>
           (population ! bisect cum_weights (u * last cum_weights) (length population - 1) # rest,
            g2)))"

definition choices_weighted ::
  "'a list \<Rightarrow> real list \<Rightarrow> nat \<Rightarrow> rng \<Rightarrow> py_error + ('a list \<times> rng)" where
  "choices_weighted population weights k g =
     (if length (accumulate 0 weights) \<noteq> length population then Inl ValueError
      else if population = [] then Inl IndexError
      else if last (accumulate 0 weights) \<le> 0 then Inl ValueError
      else Inr (weighted_picks population (accumulate 0 weights) k g))"

subsection \<open>Genetic algorithm: individuals, fitness, crossover, mutation\<close>

text \<open>\<open>create_individual\<close> shuffles \<open>list(range(num_sensors))\<close>; \<open>create_population\<close>
  builds \<open>size\<close> (here \<open>n\<close>) of them, one after the other.\<close>

definition create_individual :: "nat \<Rightarrow> rng \<Rightarrow> route \<times> rng" where
  "create_individual num_sensors g = shuffle (map int [0..<num_sensors]) g"

fun create_population :: "nat \<Rightarrow> nat \<Rightarrow> rng \<Rightarrow> route list \<times> rng" where
  "create_population num_sensors 0 g = ([], g)"
| "create_population num_sensors (Suc n) g =
     (case create_individual num_sensors g of (individual, g1) \<Rightarrow>
        (case create_population num_sensors n g1 of (rest, g2) \<Rightarrow>
           (individual # rest, g2)))"

text \<open>\<open>fitness\<close> is \<open>1 / calculate_total_distance(individual, coordinates)\<close>; Python raises
  \<open>ZeroDivisionError\<close> on a zero divisor, integer or float.\<close>

definition fitness :: "point list \<Rightarrow> route \<Rightarrow> py_error + real" where
  "fitness coordinates individual =
     (case calculate_total_distance individual coordinates of
        Inl e \<Rightarrow> Inl e
      | Inr distance \<Rightarrow> (if distance = 0 then Inl ZeroDivisionError else Inr (1 / distance)))"

text \<open>A list comprehension over a function that may raise: the first exception wins.\<close>

fun map_result :: "('a \<Rightarrow> py_error + 'b) \<Rightarrow> 'a list \<Rightarrow> py_error + 'b list" where
  "map_result f [] = Inr []"
| "map_result f (x # xs) =
     (case f x of
        Inl e \<Rightarrow> Inl e
      | Inr y \<Rightarrow> (case map_result f xs of Inl e \<Rightarrow> Inl e | Inr ys \<Rightarrow> Inr (y # ys)))"

text \<open>Slices with bounds \<open>0 \<le> start\<close>, \<open>0 \<le> stop\<close>: \<open>xs[start:stop]\<close> and the assignment
  \<open>xs[start:stop] = ys\<close>, which replaces that stretch (and may change the length).\<close>

definition slice :: "'a list \<Rightarrow> nat \<Rightarrow> nat \<Rightarrow> 'a list" where
  "slice xs start stop = drop start (take stop xs)"

definition slice_assign :: "'a list \<Rightarrow> nat \<Rightarrow> nat \<Rightarrow> 'a list \<Rightarrow> 'a list" where
  "slice_assign xs start stop ys = take start xs @ ys @ drop (max start stop) xs"

text \<open>The \<open>for i in range(num_sensors)\<close> loop of \<open>crossover\<close>, on the pair
  \<open>(child, current_pos)\<close>: both subscripts raise \<open>IndexError\<close> out of range.\<close>

fun fill_loop :: "nat list \<Rightarrow> route \<times> nat \<Rightarrow> route \<Rightarrow> py_error + (route \<times> nat)" where
  "fill_loop [] (child, current_pos) remaining = Inr (child, current_pos)"
| "fill_loop (i # rest) (child, current_pos) remaining =
     (if length child \<le> i then Inl IndexError
      else if child ! i = - 1 then
        (if length remaining \<le> current_pos then Inl IndexError
         else fill_loop rest (child[i := remaining ! current_pos], Suc current_pos) remaining)
      else fill_loop rest (child, current_pos) remaining)"

text \<open>\<open>crossover\<close> after its two draws: \<open>start\<close> and \<open>stop\<close> (the source's \<open>end\<close>) are
  given.\<close>

definition crossover_at :: "nat \<Rightarrow> route \<Rightarrow> route \<Rightarrow> nat \<Rightarrow> nat \<Rightarrow> py_error + route" where
  "crossover_at num_sensors parent1 parent2 start stop =
     (case fill_loop [0..<num_sensors]
             (slice_assign (replicate num_sensors (- 1)) start stop (slice parent1 start stop), 0)
             (filter (\<lambda>item. item \<notin> set (slice
                 (slice_assign (replicate num_sensors (- 1)) start stop (slice parent1 start stop))
                 start stop)) parent2) of
        Inl e \<Rightarrow> Inl e
      | Inr (child, current_pos) \<Rightarrow> Inr child)"

definition crossover :: "nat \<Rightarrow> route \<Rightarrow> route \<Rightarrow> rng \<Rightarrow> py_error + (route \<times> rng)" where
  "crossover num_sensors parent1 parent2 g =
     (case randint 0 (int num_sensors - 1) g of
        Inl e \<Rightarrow> Inl e
      | Inr (start, g1) \<Rightarrow>
          (case randint (start + 1) (int num_sensors) g1 of
             Inl e \<Rightarrow> Inl e
           | Inr (stop, g2) \<Rightarrow>
               (case crossover_at num_sensors parent1 parent2 (nat start) (nat stop) of
                  Inl e \<Rightarrow> Inl e
                | Inr child \<Rightarrow> Inr (child, g2))))"

text \<open>\<open>mutate\<close>: with \<open>random() < rate\<close>, exchange the entries at two sampled positions.
  The right-hand side \<open>individual[idx2], individual[idx1]\<close> is read first.\<close>

definition mutate :: "nat \<Rightarrow> route \<Rightarrow> real \<Rightarrow> rng \<Rightarrow> py_error + (route \<times> rng)" where
  "mutate num_sensors individual rate g =
     (case random_float g of (u, g1) \<Rightarrow>
        (if u < rate then
           (case sample2 num_sensors g1 of
              Inl e \<Rightarrow> Inl e
            | Inr ((idx1, idx2), g2) \<Rightarrow>
                (if idx2 < length individual \<and> idx1 < length individual
                 then Inr (individual[idx1 := individual ! idx2, idx2 := individual ! idx1], g2)
                 else Inl IndexError))
         else Inr (individual, g1)))"

subsection \<open>Genetic algorithm: the generation loop\<close>

text \<open>\<open>int(population_size * 0.1)\<close> truncates; for a non-negative \<open>population_size\<close>
  below \<open>2\<^sup>5\<^sup>3\<close> the float product rounds to a value with the integer part
  \<open>population_size div 10\<close>.\<close>

definition elite_size :: "nat \<Rightarrow> nat" where
  "elite_size population_size = population_size div 10"

text \<open>\<open>sorted(xs, key=f, reverse=True)\<close>: the keys are computed once per element, the list
  is reversed, sorted stably by ascending key, and reversed again.\<close>

definition sorted_desc :: "real list \<Rightarrow> 'a list \<Rightarrow> 'a list" where
  "sorted_desc keys xs = map snd (rev (sort_key fst (rev (zip keys xs))))"

definition elites :: "nat \<Rightarrow> real list \<Rightarrow> 'a list \<Rightarrow> 'a list" where
  "elites population_size fitnesses population =
     take (elite_size population_size) (sorted_desc fitnesses population)"

text \<open>The \<open>while len(next_generation) < population_size\<close> loop: two parents from the
  pool, one child, mutated, appended.\<close>

function reproduce ::
  "nat \<Rightarrow> route list \<Rightarrow> nat \<Rightarrow> real \<Rightarrow> route list \<Rightarrow> rng \<Rightarrow> py_error + (route list \<times> rng)" where
  "reproduce num_sensors weighted_choices population_size mutation_rate next_generation g =
     (if length next_generation < population_size then
        (case choices weighted_choices 2 g of
           Inl e \<Rightarrow> Inl e
         | Inr (parents, g1) \<Rightarrow>
             (case parents of
                [parent1, parent2] \<Rightarrow>
                  (case crossover num_sensors parent1 parent2 g1 of
                     Inl e \<Rightarrow> Inl e
                   | Inr (child, g2) \<Rightarrow>
                       (case mutate num_sensors child mutation_rate g2 of
                          Inl e \<Rightarrow> Inl e
                        | Inr (child', g3) \<Rightarrow>
                            reproduce num_sensors weighted_choices population_size mutation_rate
                              (next_generation @ [child']) g3))
              | _ \<Rightarrow> Inl ValueError))
      else Inr (next_generation, g))"
  by pat_completeness auto
termination
  by (relation "measure (\<lambda>(n, wc, population_size, rate, next_generation, g).
        population_size - length next_generation)") auto

declare reproduce.simps [simp del]

text \<open>One pass of the \<open>for generation in range(generations)\<close> body. The second evaluation
  of \<open>fitness\<close>, as the sort key, repeats the values of \<open>fitnesses\<close>.\<close>

definition generation ::
  "point list \<Rightarrow> nat \<Rightarrow> real \<Rightarrow> route list \<times> rng \<Rightarrow> py_error + (route list \<times> rng)" where
  "generation coordinates population_size mutation_rate st =
     (case st of (population, g) \<Rightarrow>
        (case map_result (fitness coordinates) population of
           Inl e \<Rightarrow> Inl e
         | Inr fitnesses \<Rightarrow>
             (case choices_weighted population fitnesses population_size g of
                Inl e \<Rightarrow> Inl e
              | Inr (weighted_choices, g1) \<Rightarrow>
                  reproduce (length coordinates) weighted_choices population_size mutation_rate
                    (elites population_size fitnesses population) g1)))"

primrec evolve ::
  "point list \<Rightarrow> nat \<Rightarrow> real \<Rightarrow> nat \<Rightarrow> route list \<times> rng \<Rightarrow> py_error + (route list \<times> rng)" where
  "evolve coordinates population_size mutation_rate 0 st = Inr st"
| "evolve coordinates population_size mutation_rate (Suc generations) st =
     (case generation coordinates population_size mutation_rate st of
        Inl e \<Rightarrow> Inl e
      | Inr st' \<Rightarrow> evolve coordinates population_size mutation_rate generations st')"

text \<open>\<open>max(population, key=fitness)\<close>: \<open>ValueError\<close> on an empty population; otherwise
  the first individual whose key no later one exceeds.\<close>

fun max_scan :: "real \<times> 'a \<Rightarrow> (real \<times> 'a) list \<Rightarrow> 'a" where
  "max_scan (best_key, best) [] = best"
| "max_scan (best_key, best) ((k, x) # rest) =
     (if best_key < k then max_scan (k, x) rest else max_scan (best_key, best) rest)"

definition max_by_fitness :: "point list \<Rightarrow> route list \<Rightarrow> py_error + route" where
  "max_by_fitness coordinates population =
     (if population = [] then Inl ValueError
      else
        (case map_result (fitness coordinates) population of
           Inl e \<Rightarrow> Inl e
         | Inr keys \<Rightarrow> Inr (max_scan (hd (zip keys population)) (tl (zip keys population)))))"

text \<open>\<open>population_size\<close> and \<open>generations\<close> are taken non-negative (a negative value
  makes the same empty \<open>range\<close> as zero).\<close>

definition genetic_algorithm ::
  "point list \<Rightarrow> nat \<Rightarrow> nat \<Rightarrow> real \<Rightarrow> rng \<Rightarrow> py_error + route" where
  "genetic_algorithm coordinates population_size generations mutation_rate g =
     (case evolve coordinates population_size mutation_rate generations
             (create_population (length coordinates) population_size g) of
        Inl e \<Rightarrow> Inl e
      | Inr (population, g') \<Rightarrow> max_by_fitness coordinates population)"

subsection \<open>The generation step on a store of list objects\<close>

text \<open>
  Python lists are mutable objects, and a population is a list of references to them:
  \<open>random.choices\<close> and the slice of the sorted population hand out the same objects, not
  copies. To state what a generation step may modify, the step is modelled a second time
  on an explicit store: a list of the list objects allocated so far, a reference being
  the position of its object. \<open>[-1] * num_sensors\<close> allocates; \<open>child[start:end] = ...\<close>,
  \<open>child[i] = ...\<close> and the exchange in \<open>mutate\<close> write to the object their reference
  names. The list \<open>remaining\<close> and the slices are temporaries that nothing else refers to,
  so they stay values.
\<close>

type_synonym ref = nat
type_synonym store = "route list"

definition allocate :: "store \<Rightarrow> route \<Rightarrow> store \<times> ref" where
  "allocate h v = (h @ [v], length h)"

fun fill_loop_store ::
  "nat list \<Rightarrow> ref \<Rightarrow> nat \<Rightarrow> route \<Rightarrow> store \<Rightarrow> py_error + (store \<times> nat)" where
  "fill_loop_store [] child current_pos remaining h = Inr (h, current_pos)"
| "fill_loop_store (i # rest) child current_pos remaining h =
     (if length (h ! child) \<le> i then Inl IndexError
      else if h ! child ! i = - 1 then
        (if length remaining \<le> current_pos then Inl IndexError
         else fill_loop_store rest child (Suc current_pos) remaining
                (h[child := (h ! child)[i := remaining ! current_pos]]))
      else fill_loop_store rest child current_pos remaining h)"

definition crossover_store ::
  "nat \<Rightarrow> ref \<Rightarrow> ref \<Rightarrow> store \<times> rng \<Rightarrow> py_error + (ref \<times> store \<times> rng)" where
  "crossover_store num_sensors parent1 parent2 st =
     (case st of (h, g) \<Rightarrow>
       (case randint 0 (int num_sensors - 1) g of
          Inl e \<Rightarrow> Inl e
        | Inr (start, g1) \<Rightarrow>
            (case randint (start + 1) (int num_sensors) g1 of
               Inl e \<Rightarrow> Inl e
             | Inr (stop, g2) \<Rightarrow>
                 (case allocate h (replicate num_sensors (- 1)) of (h1, child) \<Rightarrow>
                    (case fill_loop_store [0..<num_sensors] child 0
                            (filter (\<lambda>item. item \<notin> set (slice
                                (slice_assign (h1 ! child) (nat start) (nat stop)
                                   (slice (h1 ! parent1) (nat start) (nat stop)))
                                (nat start) (nat stop)))
                               (h1 ! parent2))
                            (h1[child := slice_assign (h1 ! child) (nat start) (nat stop)
                                           (slice (h1 ! parent1) (nat start) (nat stop))]) of
                       Inl e \<Rightarrow> Inl e
                     | Inr (h3, current_pos) \<Rightarrow> Inr (child, h3, g2))))))"

definition mutate_store ::
  "nat \<Rightarrow> ref \<Rightarrow> real \<Rightarrow> store \<times> rng \<Rightarrow> py_error + (ref \<times> store \<times> rng)" where
  "mutate_store num_sensors individual rate st =
     (case st of (h, g) \<Rightarrow>
       (case random_float g of (u, g1) \<Rightarrow>
          (if u < rate then
             (case sample2 num_sensors g1 of
                Inl e \<Rightarrow> Inl e
              | Inr ((idx1, idx2), g2) \<Rightarrow>
                  (if idx2 < length (h ! individual) \<and> idx1 < length (h ! individual)
                   then Inr (individual,
                          h[individual := (h ! individual)
                              [idx1 := h ! individual ! idx2, idx2 := h ! individual ! idx1]],
                          g2)
                   else Inl IndexError))
           else Inr (individual, h, g1))))"

function reproduce_store ::
  "nat \<Rightarrow> ref list \<Rightarrow> nat \<Rightarrow> real \<Rightarrow> ref list \<Rightarrow> store \<times> rng
     \<Rightarrow> py_error + (ref list \<times> store \<times> rng)" where
  "reproduce_store num_sensors weighted_choices population_size mutation_rate next_generation (h, g) =
     (if length next_generation < population_size then
        (case choices weighted_choices 2 g of
           Inl e \<Rightarrow> Inl e
         | Inr (parents, g1) \<Rightarrow>
             (case parents of
                [parent1, parent2] \<Rightarrow>
                  (case crossover_store num_sensors parent1 parent2 (h, g1) of
                     Inl e \<Rightarrow> Inl e
                   | Inr (child, h2, g2) \<Rightarrow>
                       (case mutate_store num_sensors child mutation_rate (h2, g2) of
                          Inl e \<Rightarrow> Inl e
                        | Inr (child', h3, g3) \<Rightarrow>
                            reproduce_store num_sensors weighted_choices population_size
                              mutation_rate (next_generation @ [child']) (h3, g3)))
              | _ \<Rightarrow> Inl ValueError))
      else Inr (next_generation, h, g))"
  by pat_completeness auto
termination
  by (relation "measure (\<lambda>(n, wc, population_size, rate, next_generation, st).
        population_size - length next_generation)") auto

declare reproduce_store.simps [simp del]

definition generation_store ::
  "point list \<Rightarrow> nat \<Rightarrow> real \<Rightarrow> ref list \<times> store \<times> rng
     \<Rightarrow> py_error + (ref list \<times> store \<times> rng)" where
  "generation_store coordinates population_size mutation_rate st =
     (case st of (population, h, g) \<Rightarrow>
        (case map_result (\<lambda>individual. fitness coordinates (h ! individual)) population of
           Inl e \<Rightarrow> Inl e
         | Inr fitnesses \<Rightarrow>
             (case choices_weighted population fitnesses population_size g of
                Inl e \<Rightarrow> Inl e
              | Inr (weighted_choices, g1) \<Rightarrow>
                  reproduce_store (length coordinates) weighted_choices population_size
                    mutation_rate (elites population_size fitnesses population) (h, g1))))"

subsection \<open>Notions of the specification\<close>

text \<open>A route over \<open>n\<close> nodes is valid when it is a permutation of \<open>0 .. n-1\<close>: every
  index once.\<close>

definition is_permutation :: "nat \<Rightarrow> route \<Rightarrow> bool" where
  "is_permutation n r = (mset r = mset (map int [0..<n]))"

text \<open>The coordinates are not all one point; then every closed tour through all of them has
  positive length.\<close>

definition spread :: "point list \<Rightarrow> bool" where
  "spread coordinates = (\<exists>p\<in>set coordinates. \<exists>q\<in>set coordinates. p \<noteq> q)"

text \<open>The best fitness of a population, where every fitness is defined.\<close>

definition best_fitness :: "point list \<Rightarrow> route list \<Rightarrow> py_error + real" where
  "best_fitness coordinates population =
     (case map_result (fitness coordinates) population of
        Inl e \<Rightarrow> Inl e
      | Inr fs \<Rightarrow> (if fs = [] then Inl ValueError else Inr (Max (set fs))))"

text \<open>An individual made in the reproduction loop: the mutated crossover of two
  parents from the pool, for some state of the random source.\<close>

definition is_child :: "nat \<Rightarrow> route list \<Rightarrow> real \<Rightarrow> route \<Rightarrow> bool" where
  "is_child num_sensors weighted_choices mutation_rate x =
     (\<exists>parent1\<in>set weighted_choices. \<exists>parent2\<in>set weighted_choices.
        \<exists>g1 g2 child g3 g4.
          crossover num_sensors parent1 parent2 g1 = Inr (child, g2)
        \<and> mutate num_sensors child mutation_rate g3 = Inr (x, g4))"

text \<open>Sample data for the concrete runs: four sensors on a line, two sensors, and a
  population of ten with its offspring.\<close>

definition line4 :: "point list" where
  "line4 = [(0, 0), (1, 0), (2, 0), (3, 0)]"

definition pair2 :: "point list" where
  "pair2 = [(0, 0), (3, 4)]"

definition population10 :: "route list" where
  "population10 = [[0, 1], [1, 0], [1, 0], [1, 0], [1, 0], [1, 0], [1, 0], [1, 0], [1, 0], [1, 0]]"

definition offspring10 :: "route list" where
  "offspring10 = [[0, 1], [0, 1], [0, 1], [0, 1], [0, 1], [0, 1], [0, 1], [0, 1], [0, 1], [0, 1]]"

text \<open>What a result on the store denotes: the population as the list of the values its
  references point to.\<close>

fun abstract_result ::
  "py_error + (ref list \<times> store \<times> rng) \<Rightarrow> py_error + (route list \<times> rng)" where
  "abstract_result (Inl e) = Inl e"
| "abstract_result (Inr (population, h, g)) = Inr (map ((!) h) population, g)"

section \<open>Tour length\<close>

lemma subscript_valid:
  "valid_index coordinates i \<Longrightarrow> subscript coordinates i = Inr (node_at coordinates i)"
  by (auto simp: valid_index_def subscript_def node_at_def)

lemma subscript_invalid:
  "\<not> valid_index coordinates i \<Longrightarrow> subscript coordinates i = Inl IndexError"
  by (auto simp: valid_index_def subscript_def)

lemma edges_loop_valid:
  assumes "\<forall>i\<in>set route. valid_index coordinates i"
  shows "k < length route \<Longrightarrow>
    edges_loop route coordinates [k..<length route - 1] d
      = Inr (d + consecutive_sum coordinates (drop k route))"
proof (induction "length route - 1 - k" arbitrary: k d)
  case 0
  then have k: "k = length route - 1" by simp
  have "drop k route = [route ! k]"
    using 0 by (simp add: Cons_nth_drop_Suc[symmetric])
  then show ?case using k by simp
next
  case (Suc m)
  then have lt: "k < length route - 1" and lt2: "Suc k < length route" by auto
  have d: "drop k route = route ! k # route ! Suc k # drop (Suc (Suc k)) route"
    using lt2 by (simp add: Cons_nth_drop_Suc Suc_lessD)
  have v: "valid_index coordinates (route ! k)" "valid_index coordinates (route ! Suc k)"
    using assms lt2 by (auto simp: Suc_lessD)
  have IH: "edges_loop route coordinates [Suc k..<length route - 1] d'
      = Inr (d' + consecutive_sum coordinates (drop (Suc k) route))" for d'
    using Suc.hyps(1)[of "Suc k" d'] Suc.hyps(2) lt2 by simp
  have d2: "drop (Suc k) route = route ! Suc k # drop (Suc (Suc k)) route"
    using lt2 by (simp add: Cons_nth_drop_Suc)
  have "edges_loop route coordinates [k..<length route - 1] d
      = edges_loop route coordinates (k # [Suc k..<length route - 1]) d"
    using lt by (simp only: upt_conv_Cons)
  also have "\<dots> = edges_loop route coordinates [Suc k..<length route - 1]
      (d + euclidean_distance (node_at coordinates (route ! k)) (node_at coordinates (route ! Suc k)))"
    using v by (simp only: edges_loop.simps subscript_valid sum.case)
  also have "\<dots> = Inr (d + euclidean_distance (node_at coordinates (route ! k))
      (node_at coordinates (route ! Suc k)) + consecutive_sum coordinates (drop (Suc k) route))"
    by (rule IH)
  also have "\<dots> = Inr (d + consecutive_sum coordinates (drop k route))"
    by (simp only: d d2 consecutive_sum.simps) simp
  finally show ?case .
qed

lemma edges_loop_invalid:
  "\<exists>i\<in>set is. \<not> valid_index coordinates (route ! i) \<or> \<not> valid_index coordinates (route ! Suc i)
   \<Longrightarrow> edges_loop route coordinates is d = Inl IndexError"
proof (induction "is" arbitrary: d)
  case Nil then show ?case by simp
next
  case (Cons i rest)
  show ?case
  proof (cases "valid_index coordinates (route ! i) \<and> valid_index coordinates (route ! Suc i)")
    case True
    with Cons.prems have "\<exists>i\<in>set rest. \<not> valid_index coordinates (route ! i) \<or> \<not> valid_index coordinates (route ! Suc i)" by auto
    from Cons.IH[OF this] True show ?thesis by (simp add: subscript_valid)
  next
    case False
    then show ?thesis
      by (cases "valid_index coordinates (route ! i)") (auto simp: subscript_valid subscript_invalid)
  qed
qed

lemma euclidean_distance_self [simp]: "euclidean_distance p p = 0"
  by (simp add: euclidean_distance_def)

lemma euclidean_distance_nonneg [simp]: "0 \<le> euclidean_distance p q"
  by (simp add: euclidean_distance_def)

lemma total_distance_valid:
  assumes a: "\<forall>i\<in>set route. valid_index coordinates i"
  shows "calculate_total_distance route coordinates = Inr (tour_length_spec route coordinates)"
proof (cases "length route < 2")
  case True
  then have "route = [] \<or> (\<exists>x. route = [x])"
    by (cases route) (auto simp: length_Suc_conv)
  then show ?thesis by (auto simp: calculate_total_distance_def tour_length_spec_def)
next
  case False
  then have ne: "route \<noteq> []" by auto
  have "edges_loop route coordinates [0..<length route - 1] 0
      = Inr (0 + consecutive_sum coordinates (drop 0 route))"
    using a ne by (intro edges_loop_valid) auto
  moreover have "valid_index coordinates (route ! 0)" "valid_index coordinates (last route)"
    using a ne by (auto simp: nth_mem)
  moreover have "route ! 0 = hd route" using ne by (simp add: hd_conv_nth)
  ultimately show ?thesis using False ne
    by (simp add: calculate_total_distance_def tour_length_spec_def subscript_valid)
qed

lemma total_distance_short:
  "length route < 2 \<Longrightarrow> calculate_total_distance route coordinates = Inr 0"
  by (simp add: calculate_total_distance_def)

lemma total_distance_invalid:
  assumes a: "2 \<le> length route" "\<exists>i\<in>set route. \<not> valid_index coordinates i"
  shows "calculate_total_distance route coordinates = Inl IndexError"
proof -
  from a obtain j where j: "j < length route" "\<not> valid_index coordinates (route ! j)"
    by (auto simp: in_set_conv_nth)
  have "\<exists>i\<in>set [0..<length route - 1].
      \<not> valid_index coordinates (route ! i) \<or> \<not> valid_index coordinates (route ! Suc i)"
  proof (cases "j < length route - 1")
    case True then show ?thesis using j by auto
  next
    case False
    then have "j = Suc (length route - 2)" using j a by auto
    then show ?thesis using j a by (intro bexI[of _ "length route - 2"]) auto
  qed
  from edges_loop_invalid[OF this] a show ?thesis
    by (simp add: calculate_total_distance_def)
qed

text \<open>
  Claim C5. For every route whose entries are subscripts of the coordinate list,
  \<open>calculate_total_distance\<close> returns the sum of the Euclidean distances over the
  consecutive pairs of the route plus the edge from the last node back to the first;
  for every route shorter than two it returns 0. (A longer route with an entry that
  is no subscript raises \<open>IndexError\<close>.)
\<close>

theorem calculate_total_distance_spec:
  "((\<forall>i\<in>set route. valid_index coordinates i) \<longrightarrow>
      calculate_total_distance route coordinates = Inr (tour_length_spec route coordinates))
   \<and> (length route < 2 \<longrightarrow> calculate_total_distance route coordinates = Inr 0)
   \<and> (2 \<le> length route \<and> (\<exists>i\<in>set route. \<not> valid_index coordinates i) \<longrightarrow>
      calculate_total_distance route coordinates = Inl IndexError)"
  using total_distance_valid[of route coordinates] total_distance_short[of route coordinates]
    total_distance_invalid[of route coordinates]
  by blast

theorem calculate_total_distance_spec_witness:
  "valid_index [(0, 0), (3, 4) :: point] (0::int) \<and> valid_index [(0, 0), (3, 4) :: point] (1::int)
   \<and> calculate_total_distance [0, 1] [(0, 0), (3, 4)] = Inr 10
   \<and> tour_length_spec [0, 1] [(0, 0), (3, 4)] = 10
   \<and> calculate_total_distance [0] [(0, 0), (3, 4)] = Inr 0
   \<and> calculate_total_distance [0, 2] [(0, 0), (3, 4)] = Inl IndexError"
proof -
  have v: "valid_index [(0, 0), (3, 4) :: point] (0::int)" "valid_index [(0, 0), (3, 4) :: point] (1::int)"
    "\<not> valid_index [(0, 0), (3, 4) :: point] (2::int)"
    by (simp_all add: valid_index_def)
  have t: "tour_length_spec [0, 1] [(0, 0), (3, 4)] = 10"
    by (simp add: tour_length_spec_def node_at_def euclidean_distance_def)
  have a: "calculate_total_distance [0, 1] [(0, 0), (3, 4)] = Inr 10"
    using v t calculate_total_distance_spec[of "[0, 1]" "[(0, 0), (3, 4)]", THEN conjunct1]
    by simp
  have b: "calculate_total_distance [0] [(0, 0), (3, 4)] = Inr 0"
    using calculate_total_distance_spec[of "[0]" "[(0, 0), (3, 4)]", THEN conjunct2, THEN conjunct1]
    by simp
  have c: "calculate_total_distance [0, 2] [(0, 0), (3, 4)] = Inl IndexError"
    using v calculate_total_distance_spec[of "[0, 2]" "[(0, 0), (3, 4)]", THEN conjunct2, THEN conjunct2]
    by simp
  show ?thesis using v t a b c by simp
qed

section \<open>Order crossover\<close>


lemma fill_loop_append:
  "fill_loop (is @ js) st remaining =
     (case fill_loop is st remaining of Inl e \<Rightarrow> Inl e | Inr st' \<Rightarrow> fill_loop js st' remaining)"
proof (induction "is" arbitrary: st)
  case Nil show ?case by (cases st) simp
next
  case (Cons i rest)
  obtain child pos where st: "st = (child, pos)" by (cases st)
  show ?case unfolding st by (simp add: Cons.IH)
qed

lemma fill_loop_markers:
  "pos + m \<le> length remaining \<Longrightarrow>
   fill_loop [length pre..<length pre + m] (pre @ replicate m (- 1) @ post, pos) remaining
     = Inr (pre @ take m (drop pos remaining) @ post, pos + m)"
proof (induction m arbitrary: pre pos)
  case 0 show ?case by simp
next
  case (Suc m)
  have lt: "pos < length remaining" and le: "Suc pos + m \<le> length remaining"
    using Suc.prems by auto
  have upd: "(pre @ replicate (Suc m) (- 1) @ post)[length pre := remaining ! pos]
      = (pre @ [remaining ! pos]) @ replicate m (- 1) @ post"
    by (simp add: list_update_append)
  have idx: "[length pre..<length pre + Suc m]
      = length pre # [length (pre @ [remaining ! pos])..<length (pre @ [remaining ! pos]) + m]"
    by (simp add: upt_conv_Cons)
  have tk: "take (Suc m) (drop pos remaining) = remaining ! pos # take m (drop (Suc pos) remaining)"
    using lt by (simp add: Cons_nth_drop_Suc[symmetric])
  have "fill_loop [length pre..<length pre + Suc m]
          (pre @ replicate (Suc m) (- 1) @ post, pos) remaining
      = fill_loop [length (pre @ [remaining ! pos])..<length (pre @ [remaining ! pos]) + m]
          ((pre @ [remaining ! pos]) @ replicate m (- 1) @ post, Suc pos) remaining"
    unfolding idx using lt by (simp add: nth_append list_update_append)
  also have "\<dots> = Inr ((pre @ [remaining ! pos]) @ take m (drop (Suc pos) remaining) @ post,
      Suc pos + m)"
    by (rule Suc.IH[OF le])
  finally show ?case by (simp add: tk)
qed

lemma fill_loop_kept:
  "- 1 \<notin> set mid \<Longrightarrow>
   fill_loop [length pre..<length pre + length mid] (pre @ mid @ post, pos) remaining
     = Inr (pre @ mid @ post, pos)"
proof (induction mid arbitrary: pre)
  case Nil show ?case by simp
next
  case (Cons x mid)
  have idx: "[length pre..<length pre + length (x # mid)]
      = length pre # [length (pre @ [x])..<length (pre @ [x]) + length mid]"
    using upt_conv_Cons[of "length pre" "length pre + Suc (length mid)"] by simp
  have "fill_loop [length pre..<length pre + length (x # mid)] (pre @ (x # mid) @ post, pos) remaining
      = fill_loop [length (pre @ [x])..<length (pre @ [x]) + length mid]
          ((pre @ [x]) @ mid @ post, pos) remaining"
    unfolding idx using Cons.prems by (simp add: nth_append)
  also have "\<dots> = Inr ((pre @ [x]) @ mid @ post, pos)"
    using Cons.prems by (intro Cons.IH) simp
  finally show ?case by simp
qed

lemma fill_loop_crossover:
  assumes se: "start \<le> stop" "stop \<le> n"
    and len: "length sl = stop - start" and nm: "- 1 \<notin> set sl"
    and rem: "length remaining = n - (stop - start)"
  shows "fill_loop [0..<n] (replicate start (- 1) @ sl @ replicate (n - stop) (- 1), 0) remaining
     = Inr (take start remaining @ sl @ drop start remaining, n - (stop - start))"
proof -
  have split: "[0..<n] = [0..<start] @ [start..<stop] @ [stop..<n]"
    using se by (metis le_trans upt_add_eq_append le_Suc_ex zero_le)
  have 1: "fill_loop [0..<start] (replicate start (- 1) @ sl @ replicate (n - stop) (- 1), 0) remaining
      = Inr (take start remaining @ sl @ replicate (n - stop) (- 1), start)"
    using fill_loop_markers[of 0 start remaining "[]" "sl @ replicate (n - stop) (- 1)"] se rem
    by simp
  have 2: "fill_loop [start..<stop] (take start remaining @ sl @ replicate (n - stop) (- 1), start) remaining
      = Inr (take start remaining @ sl @ replicate (n - stop) (- 1), start)"
    using fill_loop_kept[OF nm, of "take start remaining" "replicate (n - stop) (- 1)" start remaining]
      se rem len by simp
  have 3: "fill_loop [stop..<n] (take start remaining @ sl @ replicate (n - stop) (- 1), start) remaining
      = Inr (take start remaining @ sl @ take (n - stop) (drop start remaining), start + (n - stop))"
    using fill_loop_markers[of start "n - stop" remaining "take start remaining @ sl" "[]"]
      se rem len by simp
  have "take (n - stop) (drop start remaining) = drop start remaining"
    using se rem by simp
  then show ?thesis
    using se by (simp add: split fill_loop_append 1 2 3)
qed


lemma is_permutation_length: "is_permutation n r \<Longrightarrow> length r = n"
  unfolding is_permutation_def by (metis length_map length_upt diff_zero size_mset)

lemma is_permutation_set: "is_permutation n r \<Longrightarrow> set r = int ` {0..<n}"
  unfolding is_permutation_def by (metis set_mset_mset set_map set_upt)

lemma is_permutation_distinct: "is_permutation n r \<Longrightarrow> distinct r"
  unfolding is_permutation_def
  by (metis distinct_map distinct_upt inj_on_def of_nat_eq_iff mset_eq_imp_distinct_iff)

lemma is_permutation_trans:
  "is_permutation n p \<Longrightarrow> mset r = mset p \<Longrightarrow> is_permutation n r"
  by (simp add: is_permutation_def)

lemma slice_assign_markers:
  "start \<le> stop \<Longrightarrow> stop \<le> n \<Longrightarrow>
   slice_assign (replicate n (- 1)) start stop sl
     = replicate start (- 1) @ sl @ replicate (n - stop) (- 1)"
  by (simp add: slice_assign_def max_def min_def)

lemma slice_middle:
  "length pre = start \<Longrightarrow> length sl = stop - start \<Longrightarrow> start \<le> stop \<Longrightarrow>
   slice (pre @ sl @ post) start stop = sl"
  by (simp add: slice_def)

lemma length_slice: "stop \<le> length xs \<Longrightarrow> length (slice xs start stop) = stop - start"
  by (simp add: slice_def)

lemma set_slice_subset: "set (slice xs start stop) \<subseteq> set xs"
  unfolding slice_def by (meson set_drop_subset set_take_subset subset_trans)

lemma distinct_slice: "distinct xs \<Longrightarrow> distinct (slice xs start stop)"
  by (simp add: slice_def)

lemma mset_filter_members:
  assumes "distinct ys" "distinct sl" "set sl \<subseteq> set ys"
  shows "mset (filter (\<lambda>item. item \<in> set sl) ys) = mset sl"
proof -
  have "set (filter (\<lambda>item. item \<in> set sl) ys) = set sl" using assms(3) by auto
  moreover have "distinct (filter (\<lambda>item. item \<in> set sl) ys)" using assms(1) by simp
  ultimately show ?thesis using assms(2) set_eq_iff_mset_eq_distinct by blast
qed

lemma mset_remaining:
  assumes "distinct ys" "distinct sl" "set sl \<subseteq> set ys"
  shows "mset (filter (\<lambda>item. item \<notin> set sl) ys) + mset sl = mset ys"
proof -
  have "filter_mset (\<lambda>item. item \<in> set sl) (mset ys) = mset sl"
    using mset_filter_members[OF assms] by simp
  then show ?thesis
    using multiset_partition[of "mset ys" "\<lambda>item. item \<in> set sl"] by (simp add: add.commute)
qed

lemma crossover_at_result:
  assumes p1: "is_permutation n parent1" and p2: "is_permutation n parent2"
    and se: "start < stop" "stop \<le> n"
  shows "crossover_at n parent1 parent2 start stop =
      Inr (take start (filter (\<lambda>item. item \<notin> set (slice parent1 start stop)) parent2)
           @ slice parent1 start stop
           @ drop start (filter (\<lambda>item. item \<notin> set (slice parent1 start stop)) parent2))"
    and "length (filter (\<lambda>item. item \<notin> set (slice parent1 start stop)) parent2) = n - (stop - start)"
    and "mset (filter (\<lambda>item. item \<notin> set (slice parent1 start stop)) parent2)
           + mset (slice parent1 start stop) = mset parent2"
proof -
  let ?sl = "slice parent1 start stop"
  let ?rem = "filter (\<lambda>item. item \<notin> set ?sl) parent2"
  have len_sl: "length ?sl = stop - start"
    using se is_permutation_length[OF p1] by (simp add: length_slice)
  have sub: "set ?sl \<subseteq> set parent2"
    using set_slice_subset[of parent1 start stop] is_permutation_set[OF p1] is_permutation_set[OF p2]
    by simp
  have nm: "- 1 \<notin> set ?sl"
    using set_slice_subset[of parent1 start stop] is_permutation_set[OF p1] by auto
  have d_sl: "distinct ?sl" using is_permutation_distinct[OF p1] by (rule distinct_slice)
  show ms: "mset ?rem + mset ?sl = mset parent2"
    using is_permutation_distinct[OF p2] d_sl sub by (rule mset_remaining)
  have "size (mset ?rem + mset ?sl) = size (mset parent2)"
    using ms by (rule arg_cong)
  then have "length ?rem + length ?sl = length parent2"
    by (simp only: size_union size_mset)
  then show len_rem: "length ?rem = n - (stop - start)"
    using len_sl is_permutation_length[OF p2] by simp
  have child0: "slice_assign (replicate n (- 1)) start stop ?sl
      = replicate start (- 1) @ ?sl @ replicate (n - stop) (- 1)"
    using se by (simp add: slice_assign_markers)
  have sl0: "slice (replicate start (- 1) @ ?sl @ replicate (n - stop) (- 1)) start stop = ?sl"
    using se len_sl by (intro slice_middle) auto
  have "fill_loop [0..<n] (replicate start (- 1) @ ?sl @ replicate (n - stop) (- 1), 0) ?rem
     = Inr (take start ?rem @ ?sl @ drop start ?rem, n - (stop - start))"
    using se len_sl nm len_rem by (intro fill_loop_crossover) auto
  then show "crossover_at n parent1 parent2 start stop = Inr (take start ?rem @ ?sl @ drop start ?rem)"
    by (simp add: crossover_at_def child0 sl0)
qed

lemma crossover_at_child:
  assumes "is_permutation n parent1" and "is_permutation n parent2"
    and "start < stop" and "stop \<le> n"
  shows "\<exists>child. crossover_at n parent1 parent2 start stop = Inr child
      \<and> is_permutation n child
      \<and> distinct child \<and> set child = int ` {0..<n} \<and> length child = n
      \<and> slice child start stop = slice parent1 start stop
      \<and> take start child @ drop stop child
          = filter (\<lambda>item. item \<notin> set (slice parent1 start stop)) parent2"
proof -
  let ?sl = "slice parent1 start stop"
  let ?rem = "filter (\<lambda>item. item \<notin> set ?sl) parent2"
  let ?child = "take start ?rem @ ?sl @ drop start ?rem"
  note r = crossover_at_result[OF assms]
  have len_sl: "length ?sl = stop - start"
    using assms(4) is_permutation_length[OF assms(1)] by (simp add: length_slice)
  have st: "start \<le> length ?rem" using r(2) assms(3,4) by simp
  have "mset ?child = mset parent2"
    using r(3) by (metis append_take_drop_id mset_append add.commute add.left_commute)
  then have perm: "is_permutation n ?child"
    using assms(2) by (simp add: is_permutation_def)
  have sl: "slice ?child start stop = ?sl"
    using st len_sl assms(3) by (intro slice_middle) auto
  have rest: "take start ?child @ drop stop ?child = ?rem"
    using st len_sl assms(3) by simp
  show ?thesis
    using r(1) perm sl rest is_permutation_distinct[OF perm] is_permutation_set[OF perm]
      is_permutation_length[OF perm]
    by (intro exI[of _ ?child]) simp
qed

text \<open>
  Claim C1. For parents that are permutations of \<open>0 .. n-1\<close> and slice bounds
  \<open>0 \<le> start < stop \<le> n\<close>, the crossover returns a child that is a permutation of
  \<open>0 .. n-1\<close> (no duplicate, no omission): the slice of the first parent stands at the
  same positions, and the other positions hold, from left to right, the nodes of the
  second parent that are not in the slice, in the second parent's order.
\<close>

theorem crossover_at_permutation:
  assumes "is_permutation n parent1" and "is_permutation n parent2"
    and "start < stop" and "stop \<le> n"
  shows "\<exists>child. crossover_at n parent1 parent2 start stop = Inr child
      \<and> is_permutation n child
      \<and> distinct child \<and> set child = int ` {0..<n} \<and> length child = n
      \<and> slice child start stop = slice parent1 start stop
      \<and> take start child @ drop stop child
          = filter (\<lambda>item. item \<notin> set (slice parent1 start stop)) parent2"
  using assms by (rule crossover_at_child)

theorem crossover_at_permutation_witness:
  "is_permutation 4 [0, 1, 2, 3] \<and> is_permutation 4 [3, 2, 1, 0] \<and> (1::nat) < 3 \<and> (3::nat) \<le> 4
   \<and> (\<exists>child. crossover_at 4 [0, 1, 2, 3] [3, 2, 1, 0] 1 3 = Inr child
        \<and> child = [3, 1, 2, 0] \<and> is_permutation 4 child
        \<and> slice child 1 3 = slice [0, 1, 2, 3] 1 3)"
proof -
  have h1: "is_permutation 4 [0, 1, 2, 3]" and h2: "is_permutation 4 [3, 2, 1, 0]"
    by (simp_all add: is_permutation_def eval_nat_numeral)
  have ev: "crossover_at 4 [0, 1, 2, 3] [3, 2, 1, 0] 1 3 = Inr [3, 1, 2, 0]"
    by (simp add: crossover_at_def slice_def slice_assign_def eval_nat_numeral)
  from crossover_at_permutation[OF h1 h2, of 1 3]
  obtain child where c: "crossover_at 4 [0, 1, 2, 3] [3, 2, 1, 0] 1 3 = Inr child"
    "is_permutation 4 child" "slice child 1 3 = slice [0, 1, 2, 3] 1 3"
    by auto
  with ev have "child = [3, 1, 2, 0]" by simp
  with c h1 h2 show ?thesis by simp
qed

section \<open>Greedy optimiser\<close>



lemma diagonal_not_nearer: "\<not> sqrt 200 < 10"
  using real_sqrt_less_iff[of 200 100] by simp

text \<open>
  Claim C8. On the square \<open>[(0,0), (10,0), (10,10), (0,10)]\<close> the greedy optimiser, which
  starts at node 0, returns \<open>[0, 1, 2, 3]\<close>: nodes 1 and 3 are both at distance 10 from
  node 0 and the scan keeps the first. The tour length of that route is 40.
\<close>

theorem greedy_square:
  "greedy_route_optimizer [(0, 0), (10, 0), (10, 10), (0, 10)] = Inr [0, 1, 2, 3]
   \<and> nearest_scan [(0, 0), (10, 0), (10, 10), (0, 10)] 0 [1, 2, 3] None None = Inr (Some 1)
   \<and> euclidean_distance (0, 0) (10, 0) = 10 \<and> euclidean_distance (0, 0) (0, 10) = 10
   \<and> calculate_total_distance [0, 1, 2, 3] [(0, 0), (10, 0), (10, 10), (0, 10)] = Inr 40"
proof -
  have "greedy_route_optimizer [(0, 0), (10, 0), (10, 10), (0, 10)] = Inr [0, 1, 2, 3]"
    by (simp add: greedy_route_optimizer_def greedy_loop.simps subscript_def
        euclidean_distance_def upt_conv_Cons diagonal_not_nearer)
  moreover have "nearest_scan [(0, 0), (10, 0), (10, 10), (0, 10)] 0 [1, 2, 3] None None
      = Inr (Some 1)"
    by (simp add: subscript_def euclidean_distance_def diagonal_not_nearer)
  moreover have "calculate_total_distance [0, 1, 2, 3] [(0, 0), (10, 0), (10, 10), (0, 10)]
      = Inr 40"
    by (simp add: calculate_total_distance_def subscript_def euclidean_distance_def upt_conv_Cons)
  ultimately show ?thesis by (simp add: euclidean_distance_def)
qed

section \<open>The random primitives\<close>

lemma random_float_range:
  "random_float g = (u, g') \<Longrightarrow> 0 \<le> u \<and> u < 1"
proof -
  assume a: "random_float g = (u, g')"
  obtain r g1 where d: "draw g = (r, g1)" by (cases "draw g")
  have "r mod 2 ^ 53 < (2::nat) ^ 53" by simp
  then have "real (r mod 2 ^ 53) < 2 ^ 53"
    by (metis of_nat_less_iff of_nat_numeral of_nat_power)
  then show ?thesis using a d by (auto simp: random_float_def)
qed

lemma randint_range:
  assumes "randint a b g = Inr (x, g')"
  shows "a \<le> x \<and> x \<le> b"
proof -
  obtain r g1 where d: "draw g = (r, g1)" by (cases "draw g")
  have ab: "a \<le> b" and x: "x = a + int r mod (b - a + 1)"
    using assms d by (auto simp: randint_def split: if_splits)
  have "0 < b - a + 1" using ab by simp
  then have "0 \<le> int r mod (b - a + 1)" "int r mod (b - a + 1) < b - a + 1"
    by (rule pos_mod_sign, rule pos_mod_bound)
  then show ?thesis unfolding x by linarith
qed

lemma randint_total: "a \<le> b \<Longrightarrow> \<exists>x g'. randint a b g = Inr (x, g')"
  by (auto simp: randint_def split: prod.splits)

lemma sample2_range:
  "sample2 n g = Inr ((i, j), g') \<Longrightarrow> i < n \<and> j < n \<and> i \<noteq> j"
proof -
  assume a: "sample2 n g = Inr ((i, j), g')"
  then have n: "2 \<le> n" by (auto simp: sample2_def split: if_splits)
  obtain r1 g1 where d1: "draw g = (r1, g1)" by (cases "draw g")
  obtain r2 g2 where d2: "draw g1 = (r2, g2)" by (cases "draw g1")
  have i: "i = r1 mod n" and j: "j = (if r2 mod (n - 1) < r1 mod n then r2 mod (n - 1) else Suc (r2 mod (n - 1)))"
    using a n d1 d2 by (auto simp: sample2_def)
  have "r1 mod n < n" "r2 mod (n - 1) < n - 1" using n by auto
  then show ?thesis unfolding i j by auto
qed

lemma sample2_total: "2 \<le> n \<Longrightarrow> \<exists>i j g'. sample2 n g = Inr ((i, j), g')"
  by (auto simp: sample2_def split: prod.splits)

lemma shuffle_loop_mset:
  "\<forall>i\<in>set is. i < length x \<Longrightarrow> mset (fst (shuffle_loop is x g)) = mset x"
proof (induction "is" arbitrary: x g)
  case Nil show ?case by simp
next
  case (Cons i rest)
  obtain r g' where d: "draw g = (r, g')" by (cases "draw g")
  let ?x = "x[i := x ! (r mod Suc i), r mod Suc i := x ! i]"
  have i: "i < length x" using Cons.prems by simp
  have j: "r mod Suc i < length x" using i by (meson less_Suc_eq_le mod_less_divisor order_le_less_trans zero_less_Suc)
  have "mset ?x = mset x" using i j by (simp add: mset_swap)
  moreover have "mset (fst (shuffle_loop rest ?x g')) = mset ?x"
    using Cons.prems by (intro Cons.IH) simp
  ultimately show ?case using d by simp
qed

lemma create_individual_permutation:
  "is_permutation n (fst (create_individual n g))"
  unfolding is_permutation_def create_individual_def shuffle_def
  by (rule shuffle_loop_mset) auto

lemma create_population_valid:
  "create_population n k g = (population, g') \<Longrightarrow>
   length population = k \<and> (\<forall>ind\<in>set population. is_permutation n ind)"
proof (induction k arbitrary: g population g')
  case 0 then show ?case by simp
next
  case (Suc k)
  obtain ind g1 where ci: "create_individual n g = (ind, g1)" by (cases "create_individual n g")
  obtain rest g2 where cp: "create_population n k g1 = (rest, g2)"
    by (cases "create_population n k g1")
  have "is_permutation n ind" using create_individual_permutation[of n g] ci by simp
  then show ?case using Suc.IH[OF cp] Suc.prems ci cp by auto
qed

lemma choices_members:
  "choices population k g = Inr (picks, g') \<Longrightarrow> length picks = k \<and> set picks \<subseteq> set population"
proof (induction k arbitrary: g picks g')
  case 0 then show ?case by simp
next
  case (Suc k)
  obtain u g1 where rf: "random_float g = (u, g1)" by (cases "random_float g")
  let ?i = "nat \<lfloor>u * real (length population)\<rfloor>"
  from Suc.prems rf have lt: "?i < length population" by (auto split: if_splits)
  from Suc.prems rf lt obtain rest g2 where
    c: "choices population k g1 = Inr (rest, g2)" and p: "picks = population ! ?i # rest"
    by (auto split: sum.splits)
  show ?case using Suc.IH[OF c] p lt by auto
qed

lemma choices_total:
  "population \<noteq> [] \<Longrightarrow> \<exists>picks g'. choices population k g = Inr (picks, g')"
proof (induction k arbitrary: g)
  case 0 show ?case by simp
next
  case (Suc k)
  obtain u g1 where rf: "random_float g = (u, g1)" by (cases "random_float g")
  have u: "0 \<le> u" "u < 1" using random_float_range[OF rf] by auto
  have "u * real (length population) < real (length population)"
    using u Suc.prems by simp
  then have "\<lfloor>u * real (length population)\<rfloor> < int (length population)"
    by (simp add: floor_less_iff)
  then have lt: "nat \<lfloor>u * real (length population)\<rfloor> < length population"
    using u by (simp add: nat_less_iff)
  from Suc.IH[OF Suc.prems, of g1] obtain rest g2 where "choices population k g1 = Inr (rest, g2)"
    by blast
  then show ?case using rf lt by simp
qed

lemma bisect_le: "bisect cum x hi \<le> hi"
  unfolding bisect_def
  by (metis length_take length_takeWhile_le min.cobounded2 order_trans)

lemma weighted_picks_members:
  "population \<noteq> [] \<Longrightarrow> weighted_picks population cum k g = (picks, g') \<Longrightarrow>
   length picks = k \<and> set picks \<subseteq> set population"
proof (induction k arbitrary: g picks g')
  case 0 then show ?case by simp
next
  case (Suc k)
  obtain u g1 where rf: "random_float g = (u, g1)" by (cases "random_float g")
  obtain rest g2 where w: "weighted_picks population cum k g1 = (rest, g2)"
    by (cases "weighted_picks population cum k g1")
  have "0 < length population" using Suc.prems(1) by simp
  then have "bisect cum (u * last cum) (length population - 1) < length population"
    using bisect_le[of cum "u * last cum" "length population - 1"] by arith
  then show ?case using Suc.IH[OF Suc.prems(1) w] Suc.prems(2) rf w by auto
qed

lemma choices_weighted_members:
  "choices_weighted population weights k g = Inr (picks, g') \<Longrightarrow>
   population \<noteq> [] \<and> length picks = k \<and> set picks \<subseteq> set population"
  by (auto simp: choices_weighted_def split: if_splits dest: weighted_picks_members)

lemma length_accumulate [simp]: "length (accumulate acc ws) = length ws"
  by (induction ws arbitrary: acc) auto

lemma last_accumulate:
  "ws \<noteq> [] \<Longrightarrow> last (accumulate acc ws) = acc + sum_list ws"
proof (induction ws arbitrary: acc)
  case Nil then show ?case by simp
next
  case (Cons w ws)
  show ?case
  proof (cases "ws = []")
    case True then show ?thesis by simp
  next
    case False
    then have "accumulate (acc + w) ws \<noteq> []" by (cases ws) auto
    then show ?thesis using Cons.IH[OF False, of "acc + w"] by simp
  qed
qed

lemma choices_weighted_total:
  assumes "population \<noteq> []" "length weights = length population" "\<forall>w\<in>set weights. 0 < w"
  shows "\<exists>picks g'. choices_weighted population weights k g = Inr (picks, g')"
proof -
  have ne: "weights \<noteq> []" using assms(1,2) by auto
  have "0 < sum_list weights"
    using ne assms(3) by (induction weights) (auto intro: add_pos_nonneg sum_list_nonneg less_imp_le)
  then have "\<not> last (accumulate 0 weights) \<le> 0"
    using last_accumulate[OF ne, of 0] by simp
  then show ?thesis
    using assms(1,2) by (simp add: choices_weighted_def split: prod.splits)
qed

section \<open>Tour lengths of permutations and fitness\<close>

lemma euclidean_distance_zero: "euclidean_distance p q = 0 \<longleftrightarrow> p = q"
proof -
  have "(fst p - fst q)\<^sup>2 + (snd p - snd q)\<^sup>2 = 0 \<longleftrightarrow> fst p = fst q \<and> snd p = snd q"
    by (simp add: sum_power2_eq_zero_iff)
  then show ?thesis by (auto simp: euclidean_distance_def prod_eq_iff)
qed

lemma consecutive_sum_nonneg: "0 \<le> consecutive_sum coordinates r"
  by (induction coordinates r rule: consecutive_sum.induct) auto

lemma consecutive_sum_zero:
  "consecutive_sum coordinates r = 0 \<Longrightarrow>
   \<forall>x\<in>set r. node_at coordinates x = node_at coordinates (hd r)"
proof (induction coordinates r rule: consecutive_sum.induct)
  case (1 coordinates a b rest)
  have "0 \<le> euclidean_distance (node_at coordinates a) (node_at coordinates b)"
    "0 \<le> consecutive_sum coordinates (b # rest)"
    by (simp_all add: consecutive_sum_nonneg)
  with "1.prems" have z: "euclidean_distance (node_at coordinates a) (node_at coordinates b) = 0"
    "consecutive_sum coordinates (b # rest) = 0" by (simp_all add: add_nonneg_eq_0_iff)
  have ab: "node_at coordinates b = node_at coordinates a"
    using z(1) by (simp add: euclidean_distance_zero)
  have ih: "\<forall>x\<in>set (b # rest). node_at coordinates x = node_at coordinates b"
    using "1.IH"[OF z(2)] by simp
  show ?case
  proof
    fix x assume "x \<in> set (a # b # rest)"
    then have "x = a \<or> x \<in> set (b # rest)" by simp
    then show "node_at coordinates x = node_at coordinates (hd (a # b # rest))"
    proof
      assume "x = a" then show ?thesis by simp
    next
      assume "x \<in> set (b # rest)"
      then have "node_at coordinates x = node_at coordinates b" using ih by blast
      then show ?thesis by (simp only: ab list.sel)
    qed
  qed
qed simp_all

lemma tour_length_spec_nonneg: "0 \<le> tour_length_spec r coordinates"
  by (simp add: tour_length_spec_def consecutive_sum_nonneg)

lemma edges_loop_mono:
  "edges_loop route coordinates is d = Inr d' \<Longrightarrow> d \<le> d'"
proof (induction "is" arbitrary: d)
  case Nil then show ?case by simp
next
  case (Cons i rest)
  from Cons.prems obtain p1 p2 where
    "edges_loop route coordinates rest (d + euclidean_distance p1 p2) = Inr d'"
    by (auto split: sum.splits)
  from Cons.IH[OF this] show ?case
    using euclidean_distance_nonneg[of p1 p2] by linarith
qed

lemma calculate_total_distance_nonneg:
  "calculate_total_distance r coordinates = Inr d \<Longrightarrow> 0 \<le> d"
proof -
  assume a: "calculate_total_distance r coordinates = Inr d"
  show ?thesis
  proof (cases "length r < 2")
    case True with a show ?thesis by (simp add: calculate_total_distance_def)
  next
    case False
    with a obtain d0 p q where "edges_loop r coordinates [0..<length r - 1] 0 = Inr d0"
      "d = d0 + euclidean_distance p q"
      by (auto simp: calculate_total_distance_def split: sum.splits)
    then show ?thesis using edges_loop_mono[of r coordinates "[0..<length r - 1]" 0 d0]
      euclidean_distance_nonneg[of p q] by linarith
  qed
qed

lemma permutation_valid_index:
  "is_permutation (length coordinates) r \<Longrightarrow> \<forall>i\<in>set r. valid_index coordinates i"
  by (auto simp: is_permutation_set valid_index_def)

lemma permutation_distance:
  assumes "is_permutation (length coordinates) r"
  shows "calculate_total_distance r coordinates = Inr (tour_length_spec r coordinates)"
  using permutation_valid_index[OF assms] by (rule total_distance_valid)

lemma permutation_tour_positive:
  assumes p: "is_permutation (length coordinates) r" and s: "spread coordinates"
  shows "0 < tour_length_spec r coordinates"
proof (rule ccontr)
  assume "\<not> 0 < tour_length_spec r coordinates"
  then have "tour_length_spec r coordinates = 0"
    using tour_length_spec_nonneg[of r coordinates] by simp
  moreover have "0 \<le> (if r = [] then 0
      else euclidean_distance (node_at coordinates (last r)) (node_at coordinates (hd r)))"
    by simp
  ultimately have "consecutive_sum coordinates r = 0"
    using consecutive_sum_nonneg[of coordinates r] unfolding tour_length_spec_def
    by linarith
  then have eq: "\<forall>x\<in>set r. node_at coordinates x = node_at coordinates (hd r)"
    by (rule consecutive_sum_zero)
  have "\<forall>p\<in>set coordinates. p = node_at coordinates (hd r)"
  proof
    fix pt assume "pt \<in> set coordinates"
    then obtain i where i: "i < length coordinates" "pt = coordinates ! i"
      by (auto simp: in_set_conv_nth)
    then have "int i \<in> set r" using is_permutation_set[OF p] by auto
    then have "node_at coordinates (int i) = node_at coordinates (hd r)" using eq by simp
    then show "pt = node_at coordinates (hd r)" using i by (simp add: node_at_def)
  qed
  then have "\<forall>p\<in>set coordinates. \<forall>q\<in>set coordinates. p = q" by metis
  then show False using s unfolding spread_def by blast
qed

lemma fitness_defined:
  assumes "is_permutation (length coordinates) r" and "spread coordinates"
  shows "fitness coordinates r = Inr (1 / tour_length_spec r coordinates)
    \<and> 0 < 1 / tour_length_spec r coordinates"
  using permutation_distance[OF assms(1)] permutation_tour_positive[OF assms]
  by (simp add: fitness_def)

lemma fitness_positive: "fitness coordinates r = Inr f \<Longrightarrow> 0 < f"
proof -
  assume a: "fitness coordinates r = Inr f"
  then obtain d where d: "calculate_total_distance r coordinates = Inr d" "d \<noteq> 0" "f = 1 / d"
    by (auto simp: fitness_def split: sum.splits if_splits)
  then show ?thesis using calculate_total_distance_nonneg[OF d(1)] by simp
qed

lemma map_result_Inr:
  "map_result f xs = Inr ys \<Longrightarrow> list_all2 (\<lambda>x y. f x = Inr y) xs ys"
  by (induction xs arbitrary: ys) (auto split: sum.splits)

lemma map_result_total:
  "\<forall>x\<in>set xs. \<exists>y. f x = Inr y \<Longrightarrow> \<exists>ys. map_result f xs = Inr ys"
  by (induction xs) (auto split: sum.splits)

lemma map_result_member:
  "map_result f xs = Inr ys \<Longrightarrow> x \<in> set xs \<Longrightarrow> \<exists>y\<in>set ys. f x = Inr y"
  using map_result_Inr[of f xs ys] by (auto simp: list_all2_conv_all_nth in_set_conv_nth)

lemma map_result_zip:
  "map_result f xs = Inr ys \<Longrightarrow> (y, x) \<in> set (zip ys xs) \<Longrightarrow> f x = Inr y"
  using map_result_Inr[of f xs ys] by (auto simp: list_all2_conv_all_nth in_set_zip)

section \<open>Genetic algorithm: permutations are preserved\<close>

lemma crossover_valid:
  assumes "crossover n parent1 parent2 g = Inr (child, g')"
    and "is_permutation n parent1" and "is_permutation n parent2"
  shows "is_permutation n child"
proof -
  from assms(1) obtain start g1 stop where
    s: "randint 0 (int n - 1) g = Inr (start, g1)"
    and e: "randint (start + 1) (int n) g1 = Inr (stop, g')"
    and c: "crossover_at n parent1 parent2 (nat start) (nat stop) = Inr child"
    by (auto simp: crossover_def split: sum.splits)
  have b: "0 \<le> start" "start + 1 \<le> stop" "stop \<le> int n"
    using randint_range[OF s] randint_range[OF e] by auto
  then have "nat start < nat stop" "nat stop \<le> n" by auto
  from crossover_at_child[OF assms(2,3) this] c show ?thesis by auto
qed

lemma crossover_total:
  assumes "1 \<le> n" and "is_permutation n parent1" and "is_permutation n parent2"
  shows "\<exists>child g'. crossover n parent1 parent2 g = Inr (child, g')"
proof -
  obtain start g1 where s: "randint 0 (int n - 1) g = Inr (start, g1)"
    using randint_total[of 0 "int n - 1" g] assms(1) by auto
  have b1: "0 \<le> start" "start \<le> int n - 1" using randint_range[OF s] by auto
  obtain stop g2 where e: "randint (start + 1) (int n) g1 = Inr (stop, g2)"
    using randint_total[of "start + 1" "int n" g1] b1 by auto
  have "start + 1 \<le> stop" "stop \<le> int n" using randint_range[OF e] by auto
  then have "nat start < nat stop" "nat stop \<le> n" using b1 by auto
  from crossover_at_child[OF assms(2,3) this]
  obtain child where "crossover_at n parent1 parent2 (nat start) (nat stop) = Inr child" by auto
  then show ?thesis using s e by (simp add: crossover_def)
qed

lemma mutate_mset:
  assumes "mutate n individual rate g = Inr (individual', g')"
  shows "mset individual' = mset individual"
proof -
  obtain u g1 where rf: "random_float g = (u, g1)" by (cases "random_float g")
  show ?thesis
  proof (cases "u < rate")
    case True
    with assms rf obtain idx1 idx2 where
      "idx2 < length individual" "idx1 < length individual"
      "individual' = individual[idx1 := individual ! idx2, idx2 := individual ! idx1]"
      by (auto simp: mutate_def split: sum.splits if_splits)
    then show ?thesis by (simp add: mset_swap)
  next
    case False
    with assms rf show ?thesis by (simp add: mutate_def)
  qed
qed

lemma mutate_valid:
  "mutate n individual rate g = Inr (individual', g') \<Longrightarrow> is_permutation n individual
   \<Longrightarrow> is_permutation n individual'"
  using mutate_mset[of n individual rate g individual' g'] by (simp add: is_permutation_def)

lemma mutate_total:
  assumes "2 \<le> n" and "length individual = n"
  shows "\<exists>individual' g'. mutate n individual rate g = Inr (individual', g')"
proof -
  obtain u g1 where rf: "random_float g = (u, g1)" by (cases "random_float g")
  obtain i j g2 where s: "sample2 n g1 = Inr ((i, j), g2)"
    using sample2_total[OF assms(1), of g1] by blast
  have "i < n" "j < n" using sample2_range[OF s] by auto
  then show ?thesis using rf s assms(2) by (simp add: mutate_def)
qed

lemma mutate_never:
  assumes "rate \<le> 0"
  shows "mutate n individual rate g = Inr (individual, snd (random_float g))"
proof -
  obtain u g1 where rf: "random_float g = (u, g1)" by (cases "random_float g")
  have "0 \<le> u" using random_float_range[OF rf] by simp
  then have "\<not> u < rate" using assms by simp
  then show ?thesis using rf by (simp add: mutate_def)
qed

lemma reproduce_valid:
  "reproduce n weighted_choices population_size rate next_generation g = Inr (population', g') \<Longrightarrow>
   list_all (is_permutation n) weighted_choices \<Longrightarrow>
   list_all (is_permutation n) next_generation \<Longrightarrow>
   list_all (is_permutation n) population'
     \<and> take (length next_generation) population' = next_generation
     \<and> length population' = max population_size (length next_generation)"
proof (induction n weighted_choices population_size rate next_generation g
    rule: reproduce.induct)
  case (1 n weighted_choices population_size rate next_generation g)
  show ?case
  proof (cases "length next_generation < population_size")
    case False
    then show ?thesis using "1.prems" by (simp add: reproduce.simps max_def)
  next
    case True
    from "1.prems"(1) True obtain parents g1 where
      ch: "choices weighted_choices 2 g = Inr (parents, g1)"
      by (subst (asm) reproduce.simps) (auto split: sum.splits)
    have pl: "length parents = 2" "set parents \<subseteq> set weighted_choices"
      using choices_members[OF ch] by auto
    then obtain parent1 parent2 where ps: "parents = [parent1, parent2]"
      by (auto simp: length_Suc_conv numeral_2_eq_2)
    have pv: "is_permutation n parent1" "is_permutation n parent2"
      using pl(2) "1.prems"(2) unfolding ps by (auto simp: list_all_iff)
    from "1.prems"(1) True ch ps obtain child g2 where
      cr: "crossover n parent1 parent2 g1 = Inr (child, g2)"
      by (subst (asm) reproduce.simps) (auto split: sum.splits)
    from "1.prems"(1) True ch ps cr obtain child' g3 where
      mu: "mutate n child rate g2 = Inr (child', g3)"
      by (subst (asm) reproduce.simps) (auto split: sum.splits)
    have rec: "reproduce n weighted_choices population_size rate (next_generation @ [child']) g3
        = Inr (population', g')"
      using "1.prems"(1) True ch ps cr mu by (subst (asm) reproduce.simps) simp
    have cv: "is_permutation n child'"
      using mutate_valid[OF mu] crossover_valid[OF cr pv] by simp
    have "list_all (is_permutation n) (next_generation @ [child'])"
      using "1.prems"(3) cv by simp
    from "1.IH"[OF True ch refl ps refl refl cr refl mu refl rec "1.prems"(2) this]
    have r: "list_all (is_permutation n) population'"
      "take (length (next_generation @ [child'])) population' = next_generation @ [child']"
      "length population' = max population_size (length (next_generation @ [child']))"
      by auto
    have "take (length next_generation) population'
        = take (length next_generation) (take (length (next_generation @ [child'])) population')"
      by (simp add: min_def)
    also have "\<dots> = next_generation" unfolding r(2) by simp
    finally show ?thesis using r(1,3) True by (simp add: max_def)
  qed
qed

lemma reproduce_total:
  "2 \<le> n \<Longrightarrow> weighted_choices \<noteq> [] \<Longrightarrow>
   list_all (is_permutation n) weighted_choices \<Longrightarrow>
   list_all (is_permutation n) next_generation \<Longrightarrow>
   \<exists>population' g'. reproduce n weighted_choices population_size rate next_generation g
      = Inr (population', g')"
proof (induction n weighted_choices population_size rate next_generation g
    rule: reproduce.induct)
  case (1 n weighted_choices population_size rate next_generation g)
  show ?case
  proof (cases "length next_generation < population_size")
    case False
    then show ?thesis by (simp add: reproduce.simps)
  next
    case True
    obtain parents g1 where ch: "choices weighted_choices 2 g = Inr (parents, g1)"
      using choices_total[OF "1.prems"(2), of 2 g] by blast
    have pl: "length parents = 2" "set parents \<subseteq> set weighted_choices"
      using choices_members[OF ch] by auto
    then obtain parent1 parent2 where ps: "parents = [parent1, parent2]"
      by (auto simp: length_Suc_conv numeral_2_eq_2)
    have pv: "is_permutation n parent1" "is_permutation n parent2"
      using pl(2) "1.prems"(3) unfolding ps by (auto simp: list_all_iff)
    obtain child g2 where cr: "crossover n parent1 parent2 g1 = Inr (child, g2)"
      using crossover_total[OF _ pv, of g1] "1.prems"(1) by auto
    have cv: "is_permutation n child" using crossover_valid[OF cr pv] .
    obtain child' g3 where mu: "mutate n child rate g2 = Inr (child', g3)"
      using mutate_total[OF "1.prems"(1) is_permutation_length[OF cv], of rate g2] by blast
    have "list_all (is_permutation n) (next_generation @ [child'])"
      using "1.prems"(4) mutate_valid[OF mu cv] by simp
    from "1.IH"[OF True ch refl ps refl refl cr refl mu refl "1.prems"(1,2,3) this]
    obtain population' g' where
      "reproduce n weighted_choices population_size rate (next_generation @ [child']) g3
        = Inr (population', g')" by blast
    then have "reproduce n weighted_choices population_size rate next_generation g
        = Inr (population', g')"
      using True ch ps cr mu by (subst reproduce.simps) simp
    then show ?thesis by blast
  qed
qed

subsection \<open>Sorting by descending fitness\<close>

lemma sorted_last_max: "sorted ys \<Longrightarrow> y \<in> set ys \<Longrightarrow> y \<le> last ys"
proof (induction ys)
  case Nil then show ?case by simp
next
  case (Cons a ys)
  then show ?case by (cases "ys = []") auto
qed

lemma mset_sorted_desc:
  "length ks = length xs \<Longrightarrow> mset (sorted_desc ks xs) = mset xs"
proof -
  assume l: "length ks = length xs"
  have "mset (sorted_desc ks xs) = image_mset snd (mset (rev (sort_key fst (rev (zip ks xs)))))"
    unfolding sorted_desc_def by (simp only: mset_map)
  also have "\<dots> = image_mset snd (mset (zip ks xs))" by simp
  also have "\<dots> = mset (map snd (zip ks xs))" by (simp only: mset_map)
  also have "\<dots> = mset xs" using l by (simp add: map_snd_zip)
  finally show ?thesis .
qed

lemma sorted_desc_keys:
  "sorted (rev (map fst (rev (sort_key fst (rev (zip ks xs))))))"
  by (simp add: rev_map)

lemma sorted_desc_head:
  assumes "sorted_desc ks xs = x # rest" and "length ks = length xs"
  shows "\<exists>k. (k, x) \<in> set (zip ks xs) \<and> (\<forall>k'\<in>set ks. k' \<le> k)"
proof -
  let ?zs = "sort_key fst (rev (zip ks xs))"
  have eq: "map snd (rev ?zs) = x # rest" using assms(1) unfolding sorted_desc_def .
  then have ne: "?zs \<noteq> []" by auto
  have "hd (map snd (rev ?zs)) = x" unfolding eq by simp
  then have "snd (hd (rev ?zs)) = x" using ne by (simp add: hd_map)
  then have hd: "snd (last ?zs) = x" using ne by (simp add: hd_rev)
  have "last ?zs \<in> set ?zs" using ne by (rule last_in_set)
  then have mem: "last ?zs \<in> set (zip ks xs)" by simp
  have srt: "sorted (map fst ?zs)" by simp
  have "set (map fst ?zs) = fst ` set (zip ks xs)" by simp
  also have "\<dots> = set (map fst (zip ks xs))" by (simp only: set_map)
  also have "\<dots> = set ks" using assms(2) by (simp only: map_fst_zip)
  finally have ks: "set (map fst ?zs) = set ks" .
  have "\<forall>k'\<in>set ks. k' \<le> fst (last ?zs)"
  proof
    fix k' assume "k' \<in> set ks"
    then have "k' \<in> set (map fst ?zs)" unfolding ks .
    then have "k' \<le> last (map fst ?zs)" using sorted_last_max[OF srt] by blast
    then show "k' \<le> fst (last ?zs)" using ne by (simp add: last_map)
  qed
  moreover have "(fst (last ?zs), x) \<in> set (zip ks xs)"
    using mem hd by (metis prod.collapse)
  ultimately show ?thesis by blast
qed

subsection \<open>Generations\<close>

lemma elites_subset:
  "length fs = length population \<Longrightarrow> set (elites population_size fs population) \<subseteq> set population"
proof -
  assume "length fs = length population"
  then have "set (sorted_desc fs population) = set population"
    using mset_sorted_desc[of fs population] by (metis set_mset_mset)
  then show ?thesis unfolding elites_def using set_take_subset by fastforce
qed

lemma length_elites:
  "length fs = length population \<Longrightarrow>
   length (elites population_size fs population) = min (elite_size population_size) (length population)"
proof -
  assume "length fs = length population"
  then have "length (sorted_desc fs population) = length population"
    using mset_sorted_desc[of fs population] by (metis size_mset)
  then show ?thesis unfolding elites_def by simp
qed

lemma elite_size_le: "elite_size population_size \<le> population_size"
  by (simp add: elite_size_def)

lemma map_result_length: "map_result f xs = Inr ys \<Longrightarrow> length ys = length xs"
  using map_result_Inr[of f xs ys] by (simp add: list_all2_lengthD)

lemma generation_Inr:
  assumes "generation coordinates population_size rate (population, g) = Inr (population', g')"
  shows "\<exists>fs weighted_choices g1.
      map_result (fitness coordinates) population = Inr fs
    \<and> choices_weighted population fs population_size g = Inr (weighted_choices, g1)
    \<and> reproduce (length coordinates) weighted_choices population_size rate
          (elites population_size fs population) g1 = Inr (population', g')"
  using assms by (auto simp: generation_def split: sum.splits)

lemma generation_valid:
  assumes gen: "generation coordinates population_size rate (population, g) = Inr (population', g')"
    and v: "list_all (is_permutation (length coordinates)) population"
  shows "list_all (is_permutation (length coordinates)) population'
     \<and> length population' = population_size
     \<and> (\<exists>fs. map_result (fitness coordinates) population = Inr fs
          \<and> take (min (elite_size population_size) (length population)) population'
              = elites population_size fs population)"
proof -
  from generation_Inr[OF gen] obtain fs weighted_choices g1 where
    fs: "map_result (fitness coordinates) population = Inr fs"
    and cw: "choices_weighted population fs population_size g = Inr (weighted_choices, g1)"
    and rp: "reproduce (length coordinates) weighted_choices population_size rate
          (elites population_size fs population) g1 = Inr (population', g')"
    by blast
  have len: "length fs = length population" using map_result_length[OF fs] .
  have wv: "list_all (is_permutation (length coordinates)) weighted_choices"
    using choices_weighted_members[OF cw] v by (auto simp: list_all_iff)
  have ev: "list_all (is_permutation (length coordinates)) (elites population_size fs population)"
    using elites_subset[OF len, of population_size] v by (auto simp: list_all_iff)
  from reproduce_valid[OF rp wv ev]
  have r: "list_all (is_permutation (length coordinates)) population'"
    "take (length (elites population_size fs population)) population'
      = elites population_size fs population"
    "length population' = max population_size (length (elites population_size fs population))"
    by auto
  have "length (elites population_size fs population) \<le> population_size"
    using length_elites[OF len, of population_size] elite_size_le[of population_size] by simp
  then have "length population' = population_size" using r(3) by simp
  then show ?thesis using r(1,2) fs length_elites[OF len, of population_size] by auto
qed

lemma fitnesses_total:
  assumes "spread coordinates" and "list_all (is_permutation (length coordinates)) population"
  shows "\<exists>fs. map_result (fitness coordinates) population = Inr fs"
proof (rule map_result_total, rule ballI)
  fix x assume "x \<in> set population"
  then have "is_permutation (length coordinates) x" using assms(2) by (simp add: list_all_iff)
  from fitness_defined[OF this assms(1)] show "\<exists>y. fitness coordinates x = Inr y" by blast
qed

lemma fitnesses_positive:
  "map_result (fitness coordinates) population = Inr fs \<Longrightarrow> \<forall>w\<in>set fs. 0 < w"
proof
  fix w assume a: "map_result (fitness coordinates) population = Inr fs" "w \<in> set fs"
  then obtain i where "i < length fs" "fs ! i = w" by (auto simp: in_set_conv_nth)
  then have "fitness coordinates (population ! i) = Inr w"
    using map_result_Inr[OF a(1)] by (auto simp: list_all2_conv_all_nth)
  then show "0 < w" by (rule fitness_positive)
qed

lemma generation_total:
  assumes "2 \<le> length coordinates" and "spread coordinates" and "population \<noteq> []"
    and v: "list_all (is_permutation (length coordinates)) population"
  shows "\<exists>population' g'. generation coordinates population_size rate (population, g)
      = Inr (population', g')"
proof -
  obtain fs where fs: "map_result (fitness coordinates) population = Inr fs"
    using fitnesses_total[OF assms(2) v] by blast
  have len: "length fs = length population" using map_result_length[OF fs] .
  obtain weighted_choices g1 where
    cw: "choices_weighted population fs population_size g = Inr (weighted_choices, g1)"
    using choices_weighted_total[OF assms(3) len fitnesses_positive[OF fs], of population_size g]
    by blast
  have wc: "length weighted_choices = population_size" "set weighted_choices \<subseteq> set population"
    using choices_weighted_members[OF cw] by auto
  have wv: "list_all (is_permutation (length coordinates)) weighted_choices"
    using wc(2) v by (auto simp: list_all_iff)
  have ev: "list_all (is_permutation (length coordinates)) (elites population_size fs population)"
    using elites_subset[OF len, of population_size] v by (auto simp: list_all_iff)
  have "\<exists>population' g'. reproduce (length coordinates) weighted_choices population_size rate
          (elites population_size fs population) g1 = Inr (population', g')"
  proof (cases "weighted_choices = []")
    case True
    then have "population_size = 0" using wc(1) by simp
    then show ?thesis by (simp add: reproduce.simps)
  next
    case False
    from reproduce_total[OF assms(1) False wv ev] show ?thesis .
  qed
  then show ?thesis using fs cw by (simp add: generation_def)
qed

lemma evolve_valid:
  "evolve coordinates population_size rate k (population, g) = Inr (population', g') \<Longrightarrow>
   list_all (is_permutation (length coordinates)) population \<Longrightarrow>
   list_all (is_permutation (length coordinates)) population'
     \<and> (length population = population_size \<longrightarrow> length population' = population_size)"
proof (induction k arbitrary: population g)
  case 0 then show ?case by simp
next
  case (Suc k)
  from Suc.prems(1) obtain p1 g1 where
    gen: "generation coordinates population_size rate (population, g) = Inr (p1, g1)"
    and ev: "evolve coordinates population_size rate k (p1, g1) = Inr (population', g')"
    by (auto split: sum.splits)
  from generation_valid[OF gen Suc.prems(2)]
  have "list_all (is_permutation (length coordinates)) p1" "length p1 = population_size" by auto
  with Suc.IH[OF ev] show ?case by simp
qed

lemma evolve_total:
  assumes "2 \<le> length coordinates" and "spread coordinates" and "1 \<le> population_size"
  shows "length population = population_size \<Longrightarrow>
    list_all (is_permutation (length coordinates)) population \<Longrightarrow>
    \<exists>population' g'. evolve coordinates population_size rate k (population, g)
      = Inr (population', g')"
proof (induction k arbitrary: population g)
  case 0 show ?case by simp
next
  case (Suc k)
  have ne: "population \<noteq> []" using Suc.prems(1) assms(3) by auto
  from generation_total[OF assms(1,2) ne Suc.prems(2), of population_size rate g]
  obtain p1 g1 where
    gen: "generation coordinates population_size rate (population, g) = Inr (p1, g1)" by blast
  from generation_valid[OF gen Suc.prems(2)]
  have "length p1 = population_size" "list_all (is_permutation (length coordinates)) p1" by auto
  from Suc.IH[OF this, of g1] show ?case using gen by simp
qed

lemma max_scan_member: "max_scan (k, x) rest \<in> insert x (snd ` set rest)"
proof (induction rest arbitrary: k x)
  case Nil show ?case by simp
next
  case (Cons a rest)
  obtain k' x' where a: "a = (k', x')" by (cases a)
  show ?case using Cons.IH[of k' x'] Cons.IH[of k x] unfolding a by auto
qed

lemma max_by_fitness_member:
  assumes "max_by_fitness coordinates population = Inr r"
  shows "r \<in> set population"
proof -
  from assms obtain ks where ne: "population \<noteq> []"
    and ks: "map_result (fitness coordinates) population = Inr ks"
    and r: "r = max_scan (hd (zip ks population)) (tl (zip ks population))"
    by (auto simp: max_by_fitness_def split: if_splits sum.splits)
  have len: "length ks = length population" using map_result_length[OF ks] .
  then obtain k x zs where z: "zip ks population = (k, x) # zs"
    using ne by (cases ks; cases population) auto
  have "r \<in> insert x (snd ` set zs)" using max_scan_member[of k x zs] r z by simp
  also have "\<dots> = snd ` set (zip ks population)" unfolding z by simp
  also have "\<dots> \<subseteq> set population" by (auto dest: set_zip_rightD)
  finally show ?thesis .
qed

lemma max_by_fitness_total:
  "population \<noteq> [] \<Longrightarrow> map_result (fitness coordinates) population = Inr ks \<Longrightarrow>
   \<exists>r. max_by_fitness coordinates population = Inr r"
  by (simp add: max_by_fitness_def)


lemma genetic_algorithm_total:
  assumes "2 \<le> length coordinates" and "spread coordinates" and "1 \<le> population_size"
  shows "\<exists>r. genetic_algorithm coordinates population_size generations rate g = Inr r"
proof -
  obtain p0 g0 where cp: "create_population (length coordinates) population_size g = (p0, g0)"
    by (cases "create_population (length coordinates) population_size g")
  have p0: "length p0 = population_size" "list_all (is_permutation (length coordinates)) p0"
    using create_population_valid[OF cp] by (simp_all add: list_all_iff)
  from evolve_total[OF assms p0, of rate generations g0] obtain p g' where
    ev: "evolve coordinates population_size rate generations (p0, g0) = Inr (p, g')" by blast
  from evolve_valid[OF ev p0(2)] p0(1)
  have p: "list_all (is_permutation (length coordinates)) p" "length p = population_size" by auto
  then have ne: "p \<noteq> []" using assms(3) by auto
  obtain ks where "map_result (fitness coordinates) p = Inr ks"
    using fitnesses_total[OF assms(2) p(1)] by blast
  from max_by_fitness_total[OF ne this] obtain r where "max_by_fitness coordinates p = Inr r" ..
  then show ?thesis using cp ev by (simp add: genetic_algorithm_def)
qed

section \<open>Concrete runs\<close>

subsection \<open>Runs on the all-zero random stream\<close>

lemma random_float_Nil: "random_float [] = (0, [])"
  by (simp add: random_float_def)

lemma choices_Nil:
  "population \<noteq> [] \<Longrightarrow> choices population 2 [] = Inr ([hd population, hd population], [])"
  by (simp add: numeral_2_eq_2 random_float_Nil hd_conv_nth)

lemma weighted_picks_Nil:
  "weighted_picks population cum k []
     = (replicate k (population ! bisect cum 0 (length population - 1)), [])"
  by (induction k) (simp_all add: random_float_Nil)

lemma bisect_positive: "ws \<noteq> [] \<Longrightarrow> 0 < hd ws \<Longrightarrow> bisect (accumulate 0 ws) 0 hi = 0"
  by (cases ws; cases hi) (simp_all add: bisect_def)

lemma choices_weighted_Nil:
  assumes "population \<noteq> []" "length ws = length population" "\<forall>w\<in>set ws. 0 < w"
  shows "choices_weighted population ws k [] = Inr (replicate k (hd population), [])"
proof -
  have ne: "ws \<noteq> []" using assms(1,2) by auto
  have "0 < sum_list ws"
    using ne assms(3) by (induction ws) (auto intro: add_pos_nonneg sum_list_nonneg less_imp_le)
  then have t: "\<not> last (accumulate 0 ws) \<le> 0" using last_accumulate[OF ne, of 0] by simp
  have "0 < hd ws" using ne assms(3) by (cases ws) auto
  then have "bisect (accumulate 0 ws) 0 (length population - 1) = 0"
    using ne by (rule bisect_positive[rotated])
  then show ?thesis
    using assms(1,2) t by (simp add: choices_weighted_def weighted_picks_Nil hd_conv_nth)
qed

lemma crossover_Nil:
  "1 \<le> n \<Longrightarrow> crossover n parent1 parent2 []
     = (case crossover_at n parent1 parent2 0 (Suc 0) of Inl e \<Rightarrow> Inl e | Inr child \<Rightarrow> Inr (child, []))"
  by (simp add: crossover_def randint_def)

lemma sample2_Nil: "2 \<le> n \<Longrightarrow> sample2 n [] = Inr ((0, 1), [])"
  by (simp add: sample2_def)

lemma mutate_Nil_never: "rate \<le> 0 \<Longrightarrow> mutate n individual rate [] = Inr (individual, [])"
  by (simp add: mutate_def random_float_Nil)

lemma mutate_Nil_always:
  "0 < rate \<Longrightarrow> 2 \<le> n \<Longrightarrow> 2 \<le> length individual \<Longrightarrow>
   mutate n individual rate []
     = Inr (individual[0 := individual ! 1, 1 := individual ! 0], [])"
  by (auto simp: mutate_def random_float_Nil sample2_Nil)

subsection \<open>Sample runs\<close>

lemma upt_2: "[0..<2] = [0, 1]" "[1..<2] = [1]"
  by (simp_all add: upt_conv_Cons)







section \<open>The optimisers return permutations; fitness\<close>



lemma map_result_first_error:
  "xs \<noteq> [] \<Longrightarrow> \<forall>x\<in>set xs. f x = Inl e \<Longrightarrow> map_result f xs = Inl e"
  by (cases xs) simp_all









text \<open>A tour of length zero: two coincident points, or a single point. The fitness
  evaluation raises.\<close>

theorem fitness_zero_length_counterexample:
  "calculate_total_distance [0, 1] [(0, 0), (0, 0)] = Inr 0
   \<and> fitness [(0, 0), (0, 0)] [0, 1] = Inl ZeroDivisionError
   \<and> calculate_total_distance [0] [(5, 5)] = Inr 0
   \<and> fitness [(5, 5)] [0] = Inl ZeroDivisionError"
  by (simp add: fitness_def calculate_total_distance_def subscript_def euclidean_distance_def)

text \<open>
  Claim C6, as the code has it. \<open>fitness\<close> has no special case for a tour of length zero:
  there it raises \<open>ZeroDivisionError\<close>. For every other tour length it is the positive
  number \<open>1 / length\<close>.
\<close>

theorem fitness_reciprocal:
  assumes "calculate_total_distance individual coordinates = Inr d"
  shows "(d = 0 \<longrightarrow> fitness coordinates individual = Inl ZeroDivisionError)
    \<and> (d \<noteq> 0 \<longrightarrow> fitness coordinates individual = Inr (1 / d) \<and> 0 < 1 / d)"
  using assms calculate_total_distance_nonneg[OF assms] by (simp add: fitness_def)

theorem fitness_reciprocal_witness:
  "calculate_total_distance [1, 0] [(0, 0), (3, 4)] = Inr 10
   \<and> fitness [(0, 0), (3, 4)] [1, 0] = Inr (1 / 10) \<and> (0::real) < 1 / 10
   \<and> calculate_total_distance [0, 1] [(0, 0), (0, 0)] = Inr 0
   \<and> fitness [(0, 0), (0, 0)] [0, 1] = Inl ZeroDivisionError"
proof -
  have d1: "calculate_total_distance [1, 0] [(0, 0), (3, 4)] = Inr 10"
    and d2: "calculate_total_distance [0, 1] [(0, 0), (0, 0)] = Inr 0"
    by (simp_all add: calculate_total_distance_def subscript_def euclidean_distance_def)
  show ?thesis using fitness_reciprocal[OF d1] fitness_reciprocal[OF d2] d1 d2 by simp
qed

section \<open>Shape of a generation\<close>

lemma crossover_at_self:
  assumes p: "is_permutation n p" and se: "start < stop" "stop \<le> n"
  shows "crossover_at n p p start stop = Inr p"
proof -
  let ?sl = "slice p start stop"
  let ?rem = "filter (\<lambda>item. item \<notin> set ?sl) p"
  have len: "length p = n" using is_permutation_length[OF p] .
  have d: "distinct p" using is_permutation_distinct[OF p] .
  have te: "take stop p = take start p @ ?sl"
    using se by (metis append_take_drop_id less_imp_le min.absorb1 slice_def take_take)
  have split: "p = take start p @ ?sl @ drop stop p"
    using te by (metis append.assoc append_take_drop_id)
  have "distinct (take start p @ ?sl @ drop stop p)" using d split by simp
  then have dj: "set (take start p) \<inter> set ?sl = {}" "set ?sl \<inter> set (drop stop p) = {}"
    by auto
  have f1: "filter (\<lambda>item. item \<notin> set ?sl) (take start p) = take start p"
    using dj(1) by (intro filter_True) auto
  have f2: "filter (\<lambda>item. item \<notin> set ?sl) ?sl = []"
    by (intro filter_False) auto
  have f3: "filter (\<lambda>item. item \<notin> set ?sl) (drop stop p) = drop stop p"
    using dj(2) by (intro filter_True) auto
  have "?rem = filter (\<lambda>item. item \<notin> set ?sl) (take start p @ ?sl @ drop stop p)"
    using split by simp
  also have "\<dots> = take start p @ drop stop p"
    unfolding filter_append f1 f2 f3 by simp
  finally have rem: "?rem = take start p @ drop stop p" .
  have ls: "length (take start p) = start" using se len by simp
  have "take start ?rem = take start p" "drop start ?rem = drop stop p"
    unfolding rem using ls by simp_all
  then have "take start ?rem @ ?sl @ drop start ?rem = p" using split by simp
  then show ?thesis using crossover_at_result(1)[OF p p se] by simp
qed

lemma crossover_self:
  assumes "crossover n p p g = Inr (child, g')" and "is_permutation n p"
  shows "child = p"
proof -
  from assms(1) obtain start g1 stop where
    s: "randint 0 (int n - 1) g = Inr (start, g1)"
    and e: "randint (start + 1) (int n) g1 = Inr (stop, g')"
    and c: "crossover_at n p p (nat start) (nat stop) = Inr child"
    by (auto simp: crossover_def split: sum.splits)
  have "0 \<le> start" "start + 1 \<le> stop" "stop \<le> int n"
    using randint_range[OF s] randint_range[OF e] by auto
  then have "nat start < nat stop" "nat stop \<le> n" by auto
  from crossover_at_self[OF assms(2) this] c show ?thesis by simp
qed

lemma reproduce_shape:
  "reproduce n weighted_choices population_size rate next_generation g = Inr (population', g') \<Longrightarrow>
   \<exists>children. population' = next_generation @ children
     \<and> length children = population_size - length next_generation
     \<and> list_all (is_child n weighted_choices rate) children"
proof (induction n weighted_choices population_size rate next_generation g
    rule: reproduce.induct)
  case (1 n weighted_choices population_size rate next_generation g)
  show ?case
  proof (cases "length next_generation < population_size")
    case False
    then show ?thesis using "1.prems" by (simp add: reproduce.simps)
  next
    case True
    from "1.prems"(1) True obtain parents g1 where
      ch: "choices weighted_choices 2 g = Inr (parents, g1)"
      by (subst (asm) reproduce.simps) (auto split: sum.splits)
    have pl: "length parents = 2" "set parents \<subseteq> set weighted_choices"
      using choices_members[OF ch] by auto
    then obtain parent1 parent2 where ps: "parents = [parent1, parent2]"
      by (auto simp: length_Suc_conv numeral_2_eq_2)
    from "1.prems"(1) True ch ps obtain child g2 where
      cr: "crossover n parent1 parent2 g1 = Inr (child, g2)"
      by (subst (asm) reproduce.simps) (auto split: sum.splits)
    from "1.prems"(1) True ch ps cr obtain child' g3 where
      mu: "mutate n child rate g2 = Inr (child', g3)"
      by (subst (asm) reproduce.simps) (auto split: sum.splits)
    have rec: "reproduce n weighted_choices population_size rate (next_generation @ [child']) g3
        = Inr (population', g')"
      using "1.prems"(1) True ch ps cr mu by (subst (asm) reproduce.simps) simp
    from "1.IH"[OF True ch refl ps refl refl cr refl mu refl rec]
    obtain children where c: "population' = (next_generation @ [child']) @ children"
      "length children = population_size - length (next_generation @ [child'])"
      "list_all (is_child n weighted_choices rate) children" by blast
    have "parent1 \<in> set weighted_choices" "parent2 \<in> set weighted_choices"
      using pl(2) unfolding ps by auto
    then have "is_child n weighted_choices rate child'"
      unfolding is_child_def using cr mu by blast
    then have "list_all (is_child n weighted_choices rate) (child' # children)"
      using c(3) by simp
    moreover have "population' = next_generation @ (child' # children)" using c(1) by simp
    moreover have "length (child' # children) = population_size - length next_generation"
      using c(2) True by simp
    ultimately show ?thesis by blast
  qed
qed

lemma reproduce_Nil:
  assumes "1 \<le> n" and "weighted_choices \<noteq> []" and "is_permutation n (hd weighted_choices)"
    and "rate \<le> 0"
  shows "reproduce n weighted_choices population_size rate next_generation []
     = Inr (next_generation
            @ replicate (population_size - length next_generation) (hd weighted_choices), [])"
proof (induction "population_size - length next_generation" arbitrary: next_generation)
  case 0
  then show ?case by (simp add: reproduce.simps)
next
  case (Suc k)
  let ?p = "hd weighted_choices"
  have lt: "length next_generation < population_size" using Suc.hyps(2) by simp
  have cr: "crossover n ?p ?p [] = Inr (?p, [])"
    using crossover_at_self[OF assms(3), of 0 "Suc 0"] assms(1) by (simp add: crossover_Nil)
  have k: "k = population_size - length (next_generation @ [?p])" using Suc.hyps(2) by simp
  have "reproduce n weighted_choices population_size rate next_generation []
      = reproduce n weighted_choices population_size rate (next_generation @ [?p]) []"
    using lt by (subst reproduce.simps) (simp add: choices_Nil[OF assms(2)] cr mutate_Nil_never[OF assms(4)])
  also have "\<dots> = Inr ((next_generation @ [?p])
      @ replicate (population_size - length (next_generation @ [?p])) ?p, [])"
    by (rule Suc.hyps(1)[OF k])
  also have "(next_generation @ [?p]) @ replicate (population_size - length (next_generation @ [?p])) ?p
      = next_generation @ replicate (population_size - length next_generation) ?p"
    using Suc.hyps(2) k by (simp add: replicate_Suc[symmetric] del: replicate_Suc)
  finally show ?case .
qed

lemma sorted_desc_ranked:
  assumes fs: "map_result f xs = Inr ks"
  shows "\<exists>ks'. list_all2 (\<lambda>x k. f x = Inr k) (sorted_desc ks xs) ks' \<and> sorted (rev ks')"
proof -
  let ?r = "rev (sort_key fst (rev (zip ks xs)))"
  have "\<forall>z\<in>set ?r. f (snd z) = Inr (fst z)"
    using map_result_zip[OF fs] by auto
  then have "list_all2 (\<lambda>x k. f x = Inr k) (map snd ?r) (map fst ?r)"
    by (simp add: list_all2_map1 list_all2_map2 list_all2_same)
  moreover have "sorted (rev (map fst ?r))" by (rule sorted_desc_keys)
  ultimately show ?thesis unfolding sorted_desc_def by blast
qed

lemma generation_shape:
  assumes gen: "generation coordinates population_size rate (population, g) = Inr (population', g')"
  shows "\<exists>fs weighted_choices children.
      map_result (fitness coordinates) population = Inr fs
    \<and> set weighted_choices \<subseteq> set population
    \<and> population' = elites population_size fs population @ children
    \<and> length children = population_size - length (elites population_size fs population)
    \<and> list_all (is_child (length coordinates) weighted_choices rate) children"
proof -
  from generation_Inr[OF gen] obtain fs weighted_choices g1 where
    fs: "map_result (fitness coordinates) population = Inr fs"
    and cw: "choices_weighted population fs population_size g = Inr (weighted_choices, g1)"
    and rp: "reproduce (length coordinates) weighted_choices population_size rate
          (elites population_size fs population) g1 = Inr (population', g')"
    by blast
  from reproduce_shape[OF rp] choices_weighted_members[OF cw] fs show ?thesis by blast
qed

section \<open>Sample generations\<close>

subsection \<open>Four sensors on a line\<close>

lemma length_line4: "length line4 = 4"
  by (simp add: line4_def)

lemma upt_4: "[0..<4] = [0, 1, 2, 3]" "[1..<4] = [1, 2, 3]" "[0..<3] = [0, 1, 2]"
  by (simp_all add: upt_conv_Cons)

lemma line4_individual: "create_individual 4 [] = ([1, 2, 3, 0], [])"
  by (simp add: create_individual_def shuffle_def upt_4)

lemma line4_distance:
  "calculate_total_distance [1, 2, 3, 0] line4 = Inr 6"
  "calculate_total_distance [2, 1, 3, 0] line4 = Inr 8"
  by (simp_all add: line4_def calculate_total_distance_def subscript_def euclidean_distance_def upt_4)

lemma line4_fitness:
  "fitness line4 [1, 2, 3, 0] = Inr (1 / 6)"
  "fitness line4 [2, 1, 3, 0] = Inr (1 / 8)"
  by (simp_all add: fitness_def line4_distance)

lemma line4_permutation: "is_permutation 4 [1, 2, 3, 0]" "is_permutation 4 [2, 1, 3, 0]"
  by (simp_all add: is_permutation_def upt_4)

lemma line4_crossover:
  "crossover 4 [1, 2, 3, 0] [1, 2, 3, 0] [] = Inr ([1, 2, 3, 0], [])"
  "crossover 4 [2, 1, 3, 0] [2, 1, 3, 0] [] = Inr ([2, 1, 3, 0], [])"
  using crossover_at_self[OF line4_permutation(1), of 0 "Suc 0"]
    crossover_at_self[OF line4_permutation(2), of 0 "Suc 0"]
  by (simp_all add: crossover_Nil)

lemma line4_mutate:
  "mutate 4 [1, 2, 3, 0] 1 [] = Inr ([2, 1, 3, 0], [])"
  "mutate 4 [2, 1, 3, 0] 1 [] = Inr ([1, 2, 3, 0], [])"
  by (simp_all add: mutate_Nil_always)

lemma line4_reproduce1:
  "reproduce 4 [[1, 2, 3, 0]] (Suc 0) 1 [] [] = Inr ([[2, 1, 3, 0]], [])"
  "reproduce 4 [[2, 1, 3, 0]] (Suc 0) 1 [] [] = Inr ([[1, 2, 3, 0]], [])"
  by (simp_all add: reproduce.simps choices_Nil line4_crossover line4_mutate)

lemma line4_generation1:
  "generation line4 (Suc 0) 1 ([[1, 2, 3, 0]], []) = Inr ([[2, 1, 3, 0]], [])"
  "generation line4 (Suc 0) 1 ([[2, 1, 3, 0]], []) = Inr ([[1, 2, 3, 0]], [])"
proof -
  have cw: "choices_weighted [[1, 2, 3, 0 :: int]] [1 / 6] (Suc 0) [] = Inr ([[1, 2, 3, 0]], [])"
    "choices_weighted [[2, 1, 3, 0 :: int]] [1 / 8] (Suc 0) [] = Inr ([[2, 1, 3, 0]], [])"
    using choices_weighted_Nil[of "[[1, 2, 3, 0 :: int]]" "[1 / 6]" "Suc 0"]
      choices_weighted_Nil[of "[[2, 1, 3, 0 :: int]]" "[1 / 8]" "Suc 0"] by simp_all
  have el: "elites (Suc 0) fs [p] = []" for fs and p :: route
    by (simp add: elites_def elite_size_def)
  show "generation line4 (Suc 0) 1 ([[1, 2, 3, 0]], []) = Inr ([[2, 1, 3, 0]], [])"
    unfolding generation_def
    by (simp only: prod.case map_result.simps line4_fitness sum.case cw el length_line4
        line4_reproduce1)
  show "generation line4 (Suc 0) 1 ([[2, 1, 3, 0]], []) = Inr ([[1, 2, 3, 0]], [])"
    unfolding generation_def
    by (simp only: prod.case map_result.simps line4_fitness sum.case cw el length_line4
        line4_reproduce1)
qed

lemma line4_run: "genetic_algorithm line4 1 5 1 [] = Inr [2, 1, 3, 0]"
proof -
  have "evolve line4 (Suc 0) 1 (Suc (Suc (Suc (Suc (Suc 0))))) ([[1, 2, 3, 0]], [])
      = Inr ([[2, 1, 3, 0]], [])"
    by (simp add: line4_generation1)
  then have "evolve line4 1 1 5 ([[1, 2, 3, 0]], []) = Inr ([[2, 1, 3, 0]], [])"
    by (simp add: eval_nat_numeral)
  moreover have "max_by_fitness line4 [[2, 1, 3, 0]] = Inr [2, 1, 3, 0]"
    by (simp add: max_by_fitness_def line4_fitness)
  moreover have "create_population 4 1 [] = ([[1, 2, 3, 0]], [])"
    by (simp add: line4_individual)
  ultimately show ?thesis
    unfolding genetic_algorithm_def length_line4 by simp
qed

lemma line4_reproduce2:
  "reproduce 4 [[1, 2, 3, 0], [1, 2, 3, 0]] 2 1 [] []
     = Inr ([[2, 1, 3, 0], [2, 1, 3, 0]], [])"
  by (simp add: reproduce.simps choices_Nil line4_crossover line4_mutate)

lemma line4_generation2:
  "generation line4 2 1 ([[1, 2, 3, 0], [1, 2, 3, 0]], [])
     = Inr ([[2, 1, 3, 0], [2, 1, 3, 0]], [])"
proof -
  have cw: "choices_weighted [[1, 2, 3, 0 :: int], [1, 2, 3, 0]] [1 / 6, 1 / 6] 2 []
      = Inr ([[1, 2, 3, 0], [1, 2, 3, 0]], [])"
    using choices_weighted_Nil[of "[[1, 2, 3, 0 :: int], [1, 2, 3, 0]]" "[1 / 6, 1 / 6]" 2]
    by (simp add: numeral_2_eq_2)
  have el: "elites 2 fs ps = []" for fs and ps :: "route list"
    by (simp add: elites_def elite_size_def)
  show ?thesis
    unfolding generation_def
    by (simp only: prod.case map_result.simps line4_fitness sum.case cw el length_line4
        line4_reproduce2)
qed

lemma line4_population2:
  "create_population 4 2 [] = ([[1, 2, 3, 0], [1, 2, 3, 0]], [])"
  by (simp add: numeral_2_eq_2 line4_individual)

lemma line4_best:
  "best_fitness line4 [[1, 2, 3, 0], [1, 2, 3, 0]] = Inr (1 / 6)"
  "best_fitness line4 [[2, 1, 3, 0], [2, 1, 3, 0]] = Inr (1 / 8)"
  by (simp_all add: best_fitness_def line4_fitness)

subsection \<open>A population of equal fitness on the all-zero stream\<close>

lemma map_result_const:
  "\<forall>x\<in>set xs. f x = Inr c \<Longrightarrow> map_result f xs = Inr (replicate (length xs) c)"
  by (induction xs) auto

lemma sorted_desc_const: "sorted_desc (replicate (length xs) c) xs = xs"
proof -
  let ?z = "zip (replicate (length xs) c) xs"
  have "map fst ?z = replicate (length xs) c" by simp
  then have "rev (map fst ?z) = replicate (length xs) c" by simp
  then have "map fst (rev ?z) = replicate (length xs) c" by (simp only: rev_map)
  then have "sorted (map fst (rev ?z))" by (simp only: sorted_replicate)
  then have "sort_key fst (rev ?z) = rev ?z" by (rule sort_key_id_if_sorted)
  then show ?thesis by (simp add: sorted_desc_def)
qed

lemma generation_Nil:
  assumes n: "1 \<le> length coordinates" and ne: "population \<noteq> []"
    and f: "\<forall>x\<in>set population. fitness coordinates x = Inr c" and c: "0 < c"
    and p: "is_permutation (length coordinates) (hd population)"
    and r: "rate \<le> 0" and ps: "1 \<le> population_size"
  shows "generation coordinates population_size rate (population, [])
     = Inr (take (population_size div 10) population
            @ replicate (population_size - min (population_size div 10) (length population))
                (hd population), [])"
proof -
  let ?fs = "replicate (length population) c"
  have fs: "map_result (fitness coordinates) population = Inr ?fs"
    using f by (rule map_result_const)
  have cw: "choices_weighted population ?fs population_size []
      = Inr (replicate population_size (hd population), [])"
    using ne c by (intro choices_weighted_Nil) auto
  have el: "elites population_size ?fs population = take (population_size div 10) population"
    by (simp add: elites_def elite_size_def sorted_desc_const)
  have wne: "replicate population_size (hd population) \<noteq> []" using ps by auto
  have hw: "hd (replicate population_size (hd population)) = hd population"
    using ps by (cases population_size) auto
  have rp: "reproduce (length coordinates) (replicate population_size (hd population))
        population_size rate (take (population_size div 10) population) []
      = Inr (take (population_size div 10) population
             @ replicate (population_size - min (population_size div 10) (length population))
                 (hd population), [])"
    using reproduce_Nil[OF n wne, of rate population_size "take (population_size div 10) population"]
      p r unfolding hw by (simp add: min.commute)
  show ?thesis
    unfolding generation_def by (simp only: prod.case fs sum.case cw el rp)
qed

lemma pair2_fitness:
  "fitness pair2 [0, 1] = Inr (1 / 10)" "fitness pair2 [1, 0] = Inr (1 / 10)"
  by (simp_all add: pair2_def fitness_def calculate_total_distance_def subscript_def
      euclidean_distance_def)

lemma pair2_fitnesses:
  "map_result (fitness pair2) population10
     = Inr [1 / 10, 1 / 10, 1 / 10, 1 / 10, 1 / 10, 1 / 10, 1 / 10, 1 / 10, 1 / 10, 1 / 10]"
  "map_result (fitness pair2) offspring10
     = Inr [1 / 10, 1 / 10, 1 / 10, 1 / 10, 1 / 10, 1 / 10, 1 / 10, 1 / 10, 1 / 10, 1 / 10]"
  by (simp_all add: population10_def offspring10_def pair2_fitness)

lemma replicate_9: "replicate 9 x = [x, x, x, x, x, x, x, x, x]"
  by (simp add: eval_nat_numeral)

lemma pair2_generation:
  "generation pair2 10 0 (population10, []) = Inr (offspring10, [])"
proof -
  have perm: "is_permutation (length pair2) (hd population10)"
    by (simp add: population10_def pair2_def is_permutation_def upt_2 numeral_2_eq_2[symmetric])
  have fit: "\<forall>x\<in>set population10. fitness pair2 x = Inr (1 / 10)"
    by (simp add: population10_def pair2_fitness)
  have l: "length population10 = 10" by (simp add: population10_def)
  have n: "1 \<le> length pair2" by (simp add: pair2_def)
  have ne: "population10 \<noteq> []" by (simp add: population10_def)
  have "generation pair2 10 0 (population10, [])
     = Inr (take (10 div 10) population10
            @ replicate (10 - min (10 div 10) (length population10)) (hd population10), [])"
    using n ne fit _ perm by (rule generation_Nil) simp_all
  also have "10 - min (10 div 10) (length population10) = 9" unfolding l by simp
  also have "take (10 div 10) population10 @ replicate 9 (hd population10) = offspring10"
    unfolding replicate_9 by (simp add: population10_def offspring10_def)
  finally show ?thesis .
qed

lemma pair2_best:
  "best_fitness pair2 population10 = Inr (1 / 10)"
  "best_fitness pair2 offspring10 = Inr (1 / 10)"
  by (simp_all add: best_fitness_def pair2_fitnesses)

section \<open>Elitism\<close>

text \<open>A population of one: the product \<open>1 * 0.1\<close> rounded up is 1, but no individual is
  carried over, and the next generation does not contain the old individual.\<close>

theorem elite_count_counterexample:
  "nat \<lceil>real 1 * (1 / 10)\<rceil> = 1 \<and> elite_size 1 = 0
   \<and> map_result (fitness line4) [[1, 2, 3, 0]] = Inr [1 / 6]
   \<and> elites 1 [1 / 6] [[1, 2, 3, 0]] = []
   \<and> generation line4 1 1 ([[1, 2, 3, 0]], []) = Inr ([[2, 1, 3, 0]], [])
   \<and> [1, 2, 3, 0] \<notin> set [[2, 1, 3, 0 :: int]]"
proof -
  have "\<lceil>(1::real) / 10\<rceil> = 1" by (simp add: ceiling_eq_iff)
  then have "nat \<lceil>real 1 * (1 / 10)\<rceil> = 1" by simp
  then show ?thesis
    using line4_generation1(1) by (simp add: elites_def elite_size_def line4_fitness)
qed

text \<open>
  Claim C2, as the code has it. The number of elites is \<open>int(population_size * 0.1)\<close>, the
  product rounded down, not up. In every generation the next population begins with the
  first \<open>population_size div 10\<close> individuals of the population sorted by descending
  fitness, unchanged; all its other members are children made by crossover and mutation.
\<close>

theorem elitism_copies_top:
  assumes "generation coordinates population_size rate (population, g) = Inr (population', g')"
    and "length population = population_size"
  shows "\<exists>fs ks weighted_choices.
      map_result (fitness coordinates) population = Inr fs
    \<and> mset (sorted_desc fs population) = mset population
    \<and> list_all2 (\<lambda>x k. fitness coordinates x = Inr k) (sorted_desc fs population) ks
    \<and> sorted (rev ks)
    \<and> take (population_size div 10) population'
         = take (population_size div 10) (sorted_desc fs population)
    \<and> length population' = population_size
    \<and> set weighted_choices \<subseteq> set population
    \<and> list_all (is_child (length coordinates) weighted_choices rate)
         (drop (population_size div 10) population')"
proof -
  from generation_shape[OF assms(1)] obtain fs weighted_choices children where
    fs: "map_result (fitness coordinates) population = Inr fs"
    and wc: "set weighted_choices \<subseteq> set population"
    and p': "population' = elites population_size fs population @ children"
    and lc: "length children = population_size - length (elites population_size fs population)"
    and ch: "list_all (is_child (length coordinates) weighted_choices rate) children"
    by blast
  have len: "length fs = length population" using map_result_length[OF fs] .
  have le: "length (elites population_size fs population) = population_size div 10"
    using length_elites[OF len, of population_size] assms(2) by (simp add: elite_size_def)
  obtain ks where ks: "list_all2 (\<lambda>x k. fitness coordinates x = Inr k) (sorted_desc fs population) ks"
    "sorted (rev ks)" using sorted_desc_ranked[OF fs] by blast
  have "take (population_size div 10) population' = elites population_size fs population"
    unfolding p' using le by simp
  then have tk: "take (population_size div 10) population'
      = take (population_size div 10) (sorted_desc fs population)"
    by (simp add: elites_def elite_size_def)
  have dr: "drop (population_size div 10) population' = children" unfolding p' using le by simp
  have lp: "length population' = population_size" unfolding p' using lc le by simp
  show ?thesis
    using fs mset_sorted_desc[OF len] ks tk lp wc ch unfolding dr by blast
qed

theorem elitism_copies_top_witness:
  "generation pair2 10 0 (population10, []) = Inr (offspring10, [])
   \<and> length population10 = 10
   \<and> take (10 div 10) offspring10 = [[0, 1]]
   \<and> (\<exists>fs. map_result (fitness pair2) population10 = Inr fs
         \<and> take (10 div 10) offspring10 = take (10 div 10) (sorted_desc fs population10))
   \<and> length offspring10 = 10"
proof -
  have l: "length population10 = 10" by (simp add: population10_def)
  from elitism_copies_top[OF pair2_generation l]
  have "\<exists>fs. map_result (fitness pair2) population10 = Inr fs
         \<and> take (10 div 10) offspring10 = take (10 div 10) (sorted_desc fs population10)"
    "length offspring10 = 10"
    by blast+
  moreover have "take (10 div 10) offspring10 = [[0, 1]]" by (simp add: offspring10_def)
  ultimately show ?thesis using pair2_generation l by simp
qed

text \<open>A run with \<open>population_size = 2\<close> and \<open>mutation_rate = 1\<close> on the all-zero stream:
  both members of generation 0 have tour length 6, both members of generation 1 have
  tour length 8.\<close>

theorem best_fitness_decreases_counterexample:
  "2 \<le> length line4 \<and> (2::nat) \<le> 2 \<and> (0::real) \<le> 1 \<and> (1::real) \<le> 1
   \<and> create_population (length line4) 2 [] = ([[1, 2, 3, 0], [1, 2, 3, 0]], [])
   \<and> generation line4 2 1 ([[1, 2, 3, 0], [1, 2, 3, 0]], [])
        = Inr ([[2, 1, 3, 0], [2, 1, 3, 0]], [])
   \<and> best_fitness line4 [[1, 2, 3, 0], [1, 2, 3, 0]] = Inr (1 / 6)
   \<and> best_fitness line4 [[2, 1, 3, 0], [2, 1, 3, 0]] = Inr (1 / 8)
   \<and> \<not> ((1::real) / 6 \<le> 1 / 8)"
  by (simp add: length_line4 line4_population2 line4_generation2 line4_best)

text \<open>
  Claim C3, as the code has it. With \<open>population_size < 10\<close> there is no elite
  (\<open>int(population_size * 0.1) = 0\<close>), and the best fitness can fall from one generation
  to the next. With \<open>population_size \<ge> 10\<close> the best individual is carried over, and the
  best fitness of the next population is at least the best fitness of the current one.
\<close>

theorem elitism_monotone:
  assumes "10 \<le> population_size"
    and gen: "generation coordinates population_size rate (population, g) = Inr (population', g')"
    and b: "best_fitness coordinates population = Inr b"
    and b': "best_fitness coordinates population' = Inr b'"
  shows "b \<le> b'"
proof -
  from generation_shape[OF gen] obtain fs children where
    fs: "map_result (fitness coordinates) population = Inr fs"
    and p': "population' = elites population_size fs population @ children"
    by blast
  have len: "length fs = length population" using map_result_length[OF fs] .
  from b fs have ne: "fs \<noteq> []" and bm: "b = Max (set fs)"
    by (auto simp: best_fitness_def split: if_splits)
  from b' obtain fs' where fs': "map_result (fitness coordinates) population' = Inr fs'"
    and bm': "b' = Max (set fs')"
    by (auto simp: best_fitness_def split: sum.splits if_splits)
  have "length (sorted_desc fs population) = length population"
    using mset_sorted_desc[OF len] by (metis size_mset)
  then obtain x rest where sd: "sorted_desc fs population = x # rest"
    using ne len by (cases "sorted_desc fs population") auto
  have "1 \<le> elite_size population_size" using assms(1) by (simp add: elite_size_def)
  then obtain e where e: "elite_size population_size = Suc e" by (cases "elite_size population_size") auto
  have "elites population_size fs population = x # take e rest"
    unfolding elites_def sd e by simp
  then have xin: "x \<in> set population'" unfolding p' by simp
  from sorted_desc_head[OF sd len] obtain k where
    k: "(k, x) \<in> set (zip fs population)" "\<forall>k'\<in>set fs. k' \<le> k" by blast
  have kin: "k \<in> set fs" using k(1) by (rule set_zip_leftD)
  have "Max (set fs) = k"
    using kin k(2) by (intro Max_eqI) auto
  then have bk: "b = k" using bm by simp
  have "fitness coordinates x = Inr k" using map_result_zip[OF fs k(1)] .
  moreover obtain y where "y \<in> set fs'" "fitness coordinates x = Inr y"
    using map_result_member[OF fs' xin] by blast
  ultimately have "k \<in> set fs'" by simp
  then have "k \<le> Max (set fs')" by simp
  then show ?thesis using bk bm' by simp
qed

theorem elitism_monotone_witness:
  "(10::nat) \<le> 10
   \<and> generation pair2 10 0 (population10, []) = Inr (offspring10, [])
   \<and> best_fitness pair2 population10 = Inr (1 / 10)
   \<and> best_fitness pair2 offspring10 = Inr (1 / 10)
   \<and> (1::real) / 10 \<le> 1 / 10"
  using elitism_monotone[OF _ pair2_generation pair2_best] pair2_generation pair2_best
  by simp

section \<open>A population of one\<close>

lemma generation_single:
  assumes gen: "generation coordinates 1 rate ([p], g) = Inr (population', g')"
    and p: "is_permutation (length coordinates) p"
  shows "\<exists>p'. population' = [p'] \<and> mset p' = mset p \<and> (rate \<le> 0 \<longrightarrow> p' = p)"
proof -
  from generation_shape[OF gen] obtain fs weighted_choices children where
    wc: "set weighted_choices \<subseteq> set [p]"
    and p': "population' = elites 1 fs [p] @ children"
    and lc: "length children = 1 - length (elites 1 fs [p])"
    and ch: "list_all (is_child (length coordinates) weighted_choices rate) children"
    by blast
  have el: "elites 1 fs [p] = []" by (simp add: elites_def elite_size_def)
  from lc el obtain c where c: "children = [c]" by (cases children) auto
  from ch c obtain parent1 parent2 g1 g2 child g3 g4 where
    m: "parent1 \<in> set weighted_choices" "parent2 \<in> set weighted_choices"
    and cr: "crossover (length coordinates) parent1 parent2 g1 = Inr (child, g2)"
    and mu: "mutate (length coordinates) child rate g3 = Inr (c, g4)"
    unfolding is_child_def by auto
  have "parent1 = p" "parent2 = p" using m wc by auto
  then have child: "child = p" using crossover_self[OF _ p] cr by simp
  have ms: "mset c = mset p" using mutate_mset[OF mu] child by simp
  have "rate \<le> 0 \<longrightarrow> c = p"
    using mutate_never[of rate "length coordinates" child g3] mu child by auto
  then show ?thesis using p' el c ms by simp
qed

lemma evolve_single:
  "evolve coordinates 1 rate k ([p], g) = Inr (population', g') \<Longrightarrow>
   is_permutation (length coordinates) p \<Longrightarrow>
   \<exists>p'. population' = [p'] \<and> mset p' = mset p \<and> (rate \<le> 0 \<longrightarrow> p' = p)"
proof (induction k arbitrary: p g)
  case 0 then show ?case by auto
next
  case (Suc k)
  from Suc.prems(1) obtain p1 g1 where
    gen: "generation coordinates 1 rate ([p], g) = Inr (p1, g1)"
    and ev: "evolve coordinates 1 rate k (p1, g1) = Inr (population', g')"
    by (auto split: sum.splits)
  from generation_single[OF gen Suc.prems(2)] obtain q where
    q: "p1 = [q]" "mset q = mset p" "rate \<le> 0 \<longrightarrow> q = p" by blast
  have "is_permutation (length coordinates) q"
    using Suc.prems(2) q(2) by (simp add: is_permutation_def)
  from Suc.IH[OF ev[unfolded q(1)] this] q show ?case by auto
qed

lemma single_run:
  assumes "genetic_algorithm coordinates 1 generations rate g = Inr r"
  shows "mset r = mset (fst (create_individual (length coordinates) g))
    \<and> (rate \<le> 0 \<longrightarrow> r = fst (create_individual (length coordinates) g))"
proof -
  obtain p g0 where ci: "create_individual (length coordinates) g = (p, g0)"
    by (cases "create_individual (length coordinates) g")
  have cp: "create_population (length coordinates) 1 g = ([p], g0)" using ci by simp
  from assms cp obtain population' g' where
    ev: "evolve coordinates 1 rate generations ([p], g0) = Inr (population', g')"
    and mx: "max_by_fitness coordinates population' = Inr r"
    by (auto simp: genetic_algorithm_def split: sum.splits)
  have pp: "is_permutation (length coordinates) p"
    using create_individual_permutation[of "length coordinates" g] ci by simp
  from evolve_single[OF ev pp] obtain p' where
    p': "population' = [p']" "mset p' = mset p" "rate \<le> 0 \<longrightarrow> p' = p" by blast
  have "r = p'" using max_by_fitness_member[OF mx] p'(1) by simp
  then show ?thesis using p' ci by simp
qed

lemma line4_generation0:
  "generation line4 (Suc 0) 0 ([[1, 2, 3, 0]], []) = Inr ([[1, 2, 3, 0]], [])"
proof -
  have "generation line4 (Suc 0) 0 ([[1, 2, 3, 0]], [])
      = Inr (take (Suc 0 div 10) [[1, 2, 3, 0]]
          @ replicate (Suc 0 - min (Suc 0 div 10) (length [[1, 2, 3, 0 :: int]])) (hd [[1, 2, 3, 0]]), [])"
    by (rule generation_Nil[where c = "1 / 6"])
      (simp_all add: length_line4 line4_fitness line4_permutation)
  then show ?thesis by simp
qed

lemma line4_run0: "genetic_algorithm line4 1 5 0 [] = Inr [1, 2, 3, 0]"
proof -
  have "evolve line4 (Suc 0) 0 (Suc (Suc (Suc (Suc (Suc 0))))) ([[1, 2, 3, 0]], [])
      = Inr ([[1, 2, 3, 0]], [])"
    by (simp add: line4_generation0)
  then have "evolve line4 1 0 5 ([[1, 2, 3, 0]], []) = Inr ([[1, 2, 3, 0]], [])"
    by (simp add: eval_nat_numeral)
  moreover have "max_by_fitness line4 [[1, 2, 3, 0]] = Inr [1, 2, 3, 0]"
    by (simp add: max_by_fitness_def line4_fitness)
  moreover have "create_population 4 1 [] = ([[1, 2, 3, 0]], [])"
    by (simp add: line4_individual)
  ultimately show ?thesis
    unfolding genetic_algorithm_def length_line4 by simp
qed

lemma spread_line4: "spread line4"
  unfolding spread_def line4_def by (intro bexI[of _ "(0, 0)"] bexI[of _ "(1, 0)"]) simp_all

text \<open>A run with \<open>population_size = 1\<close>, \<open>generations = 5\<close> and \<open>mutation_rate = 1\<close> on
  the all-zero stream: the initial individual has tour length 6, the returned route has
  tour length 8, and no generation copies an elite.\<close>

theorem single_individual_counterexample:
  "create_individual (length line4) [] = ([1, 2, 3, 0], [])
   \<and> genetic_algorithm line4 1 5 1 [] = Inr [2, 1, 3, 0]
   \<and> calculate_total_distance [1, 2, 3, 0] line4 = Inr 6
   \<and> calculate_total_distance [2, 1, 3, 0] line4 = Inr 8
   \<and> (8::real) \<noteq> 6
   \<and> elite_size 1 = 0"
  using line4_run
  by (simp add: length_line4 line4_individual line4_distance elite_size_def)

text \<open>
  Claim C9, as the code has it. With \<open>population_size = 1\<close> no elite is copied
  (\<open>int(1 * 0.1) = 0\<close>): each generation replaces the sole individual by the mutated
  crossover of that individual with itself. The crossover of an individual with itself
  returns it, and a mutation exchanges two entries, so every route the algorithm returns
  is a rearrangement of the initial individual: the node composition never changes. With
  \<open>mutation_rate = 0\<close> the returned route is the initial individual, and so has its tour
  length. The algorithm returns a route when there are at least two points, not all the
  same.
\<close>

theorem single_individual_run:
  "(\<forall>r. genetic_algorithm coordinates 1 generations rate g = Inr r \<longrightarrow>
        mset r = mset (fst (create_individual (length coordinates) g))
      \<and> (rate \<le> 0 \<longrightarrow>
            r = fst (create_individual (length coordinates) g)
          \<and> calculate_total_distance r coordinates
              = calculate_total_distance (fst (create_individual (length coordinates) g))
                  coordinates))
   \<and> (2 \<le> length coordinates \<and> spread coordinates \<longrightarrow>
        (\<exists>r. genetic_algorithm coordinates 1 generations rate g = Inr r))
   \<and> elite_size 1 = 0"
proof (intro conjI allI impI)
  fix r assume a: "genetic_algorithm coordinates 1 generations rate g = Inr r"
  show "mset r = mset (fst (create_individual (length coordinates) g))"
    using single_run[OF a] by simp
  assume "rate \<le> 0"
  then show r: "r = fst (create_individual (length coordinates) g)"
    using single_run[OF a] by simp
  show "calculate_total_distance r coordinates
      = calculate_total_distance (fst (create_individual (length coordinates) g)) coordinates"
    using r by simp
next
  assume "2 \<le> length coordinates \<and> spread coordinates"
  then show "\<exists>r. genetic_algorithm coordinates 1 generations rate g = Inr r"
    using genetic_algorithm_total[of coordinates 1 generations rate g] by simp
next
  show "elite_size 1 = 0" by (simp add: elite_size_def)
qed

theorem single_individual_run_witness:
  "genetic_algorithm line4 1 5 0 [] = Inr [1, 2, 3, 0]
   \<and> (0::real) \<le> 0 \<and> 2 \<le> length line4 \<and> spread line4
   \<and> fst (create_individual (length line4) []) = [1, 2, 3, 0]
   \<and> mset [1, 2, 3, 0] = mset (fst (create_individual (length line4) []))
   \<and> calculate_total_distance [1, 2, 3, 0] line4
        = calculate_total_distance (fst (create_individual (length line4) [])) line4"
proof -
  note t = single_individual_run[of line4 5 0 "[]"]
  from t line4_run0 have
    "mset [1, 2, 3, 0] = mset (fst (create_individual (length line4) []))"
    "[1, 2, 3, 0] = fst (create_individual (length line4) [])"
    "calculate_total_distance [1, 2, 3, 0] line4
        = calculate_total_distance (fst (create_individual (length line4) [])) line4"
    by auto
  then show ?thesis using line4_run0 spread_line4 by (simp add: length_line4)
qed

section \<open>Degenerate inputs\<close>

lemma fitness_short:
  "length individual < 2 \<Longrightarrow> fitness coordinates individual = Inl ZeroDivisionError"
  by (simp add: fitness_def calculate_total_distance_def)

lemma genetic_algorithm_degenerate:
  assumes n: "length coordinates \<le> 1" and ps: "1 \<le> population_size"
  shows "genetic_algorithm coordinates population_size generations rate g
     = Inl ZeroDivisionError"
proof -
  obtain p0 g0 where cp: "create_population (length coordinates) population_size g = (p0, g0)"
    by (cases "create_population (length coordinates) population_size g")
  have v: "length p0 = population_size" "\<forall>ind\<in>set p0. is_permutation (length coordinates) ind"
    using create_population_valid[OF cp] by auto
  have ne: "p0 \<noteq> []" using v(1) ps by auto
  have "\<forall>ind\<in>set p0. fitness coordinates ind = Inl ZeroDivisionError"
  proof
    fix ind assume "ind \<in> set p0"
    then have "length ind = length coordinates" using v(2) is_permutation_length by blast
    then show "fitness coordinates ind = Inl ZeroDivisionError"
      using n by (intro fitness_short) simp
  qed
  then have mr: "map_result (fitness coordinates) p0 = Inl ZeroDivisionError"
    using ne by (intro map_result_first_error) auto
  show ?thesis
  proof (cases generations)
    case 0
    then show ?thesis using cp ne mr by (simp add: genetic_algorithm_def max_by_fitness_def)
  next
    case (Suc k)
    have "generation coordinates population_size rate (p0, g0) = Inl ZeroDivisionError"
      using mr by (simp add: generation_def)
    then show ?thesis using cp Suc by (simp add: genetic_algorithm_def)
  qed
qed

lemma crossover_single:
  "crossover 1 [0] [0] g = Inr ([0], snd (draw (snd (draw g))))"
proof -
  obtain r g1 where d1: "draw g = (r, g1)" by (cases "draw g")
  obtain r' g2 where d2: "draw g1 = (r', g2)" by (cases "draw g1")
  have c: "crossover_at 1 [0] [0] 0 (Suc 0) = Inr [0]"
    by (simp add: crossover_at_def slice_def slice_assign_def)
  show ?thesis using d1 d2 c by (simp add: crossover_def randint_def)
qed

lemma mutate_single:
  "mutate 1 individual rate g =
     (if fst (random_float g) < rate then Inl ValueError
      else Inr (individual, snd (random_float g)))"
  by (cases "random_float g") (simp add: mutate_def sample2_def)

text \<open>The greedy optimiser on no coordinates returns the one-node route \<open>[0]\<close>, not the
  empty route; the genetic algorithm raises \<open>ZeroDivisionError\<close> on no coordinates and on
  one; a mutation that fires on a single node raises \<open>ValueError\<close>.\<close>

theorem degenerate_inputs_counterexample:
  "greedy_route_optimizer [] = Inr [0]
   \<and> genetic_algorithm [] 1 5 0 [] = Inl ZeroDivisionError
   \<and> genetic_algorithm [(5, 5)] 1 5 0 [] = Inl ZeroDivisionError
   \<and> genetic_algorithm [(5, 5)] 1 0 0 [] = Inl ZeroDivisionError
   \<and> mutate 1 [0] 1 [] = Inl ValueError"
proof -
  have "greedy_route_optimizer [] = Inr [0]"
    by (simp add: greedy_route_optimizer_def greedy_loop.simps)
  moreover have "mutate 1 [0] 1 [] = Inl ValueError"
    using mutate_single[of "[0]" 1 "[]"] by (simp add: random_float_Nil)
  ultimately show ?thesis by (simp add: genetic_algorithm_degenerate)
qed

text \<open>
  Claim C7, as the code has it. For one coordinate the greedy optimiser returns the
  single-node route \<open>[0]\<close>, whose tour length is 0, and raises nothing; the tour length of
  the empty route is 0 as well. At \<open>N = 1\<close> the crossover returns the single-node parent,
  and \<open>mutate\<close> returns the individual unchanged unless its random draw is below the
  mutation rate, when \<open>random.sample\<close> raises \<open>ValueError\<close>. The genetic algorithm on no
  coordinates or one, with a population of at least one, returns no route: the fitness
  of a tour of length 0 raises \<open>ZeroDivisionError\<close>.
\<close>

theorem degenerate_inputs:
  "greedy_route_optimizer [p] = Inr [0]
   \<and> calculate_total_distance [0] [p] = Inr 0
   \<and> calculate_total_distance [] coordinates = Inr 0
   \<and> crossover 1 [0] [0] g = Inr ([0], snd (draw (snd (draw g))))
   \<and> mutate 1 [0] rate g =
        (if fst (random_float g) < rate then Inl ValueError
         else Inr ([0], snd (random_float g)))
   \<and> (length coordinates \<le> 1 \<and> 1 \<le> population_size \<longrightarrow>
        genetic_algorithm coordinates population_size generations rate g
          = Inl ZeroDivisionError)"
proof -
  have "greedy_route_optimizer [p] = Inr [0]"
    by (simp add: greedy_route_optimizer_def greedy_loop.simps)
  moreover have "calculate_total_distance [0] [p] = Inr 0"
    "calculate_total_distance [] coordinates = Inr 0"
    by (simp_all add: calculate_total_distance_def)
  ultimately show ?thesis
    using crossover_single[of g] mutate_single[of "[0]" rate g]
      genetic_algorithm_degenerate[of coordinates population_size generations rate g]
    by simp
qed

theorem degenerate_inputs_witness:
  "length [(5, 5) :: point] \<le> 1 \<and> (1::nat) \<le> 1
   \<and> greedy_route_optimizer [(5, 5)] = Inr [0]
   \<and> calculate_total_distance [0] [(5, 5)] = Inr 0
   \<and> crossover 1 [0] [0] [] = Inr ([0], [])
   \<and> mutate 1 [0] 0 [] = Inr ([0], [])
   \<and> genetic_algorithm [(5, 5)] 1 5 0 [] = Inl ZeroDivisionError"
  using degenerate_inputs[of "(5, 5)" "[(5, 5)]" "[]" 0 1 5]
  by (simp add: random_float_Nil)

section \<open>The generation step on the store\<close>

subsection \<open>What a step leaves untouched\<close>

lemma fill_loop_store_frame:
  "fill_loop_store is child pos remaining h = Inr (h', pos') \<Longrightarrow>
   length h' = length h \<and> (\<forall>r. r \<noteq> child \<longrightarrow> h' ! r = h ! r)"
proof (induction "is" arbitrary: pos h)
  case Nil then show ?case by simp
next
  case (Cons i rest)
  show ?case
  proof (cases "h ! child ! i = - 1")
    case True
    with Cons.prems have
      "fill_loop_store rest child (Suc pos) remaining
         (h[child := (h ! child)[i := remaining ! pos]]) = Inr (h', pos')"
      by (auto split: if_splits)
    from Cons.IH[OF this] show ?thesis by simp
  next
    case False
    with Cons.prems have "fill_loop_store rest child pos remaining h = Inr (h', pos')"
      by (auto split: if_splits)
    from Cons.IH[OF this] show ?thesis .
  qed
qed

lemma crossover_store_frame:
  assumes "crossover_store n parent1 parent2 (h, g) = Inr (child, h', g')"
  shows "child = length h \<and> length h' = Suc (length h) \<and> (\<forall>r<length h. h' ! r = h ! r)"
proof -
  from assms obtain start g1 stop remaining child0 pos where
    fl: "fill_loop_store [0..<n] (length h) 0 remaining
          ((h @ [replicate n (- 1)])[length h := child0]) = Inr (h', pos)"
    and c: "child = length h"
    by (auto simp: crossover_store_def allocate_def split: sum.splits)
  from fill_loop_store_frame[OF fl]
  have l: "length h' = Suc (length h)"
    and f: "\<forall>r. r \<noteq> length h \<longrightarrow> h' ! r = ((h @ [replicate n (- 1)])[length h := child0]) ! r"
    by auto
  have "\<forall>r<length h. h' ! r = h ! r"
    using f by (simp add: nth_append)
  then show ?thesis using c l by simp
qed

lemma mutate_store_frame:
  assumes "mutate_store n individual rate (h, g) = Inr (individual', h', g')"
  shows "individual' = individual \<and> length h' = length h
    \<and> (\<forall>r. r \<noteq> individual \<longrightarrow> h' ! r = h ! r)"
proof -
  obtain u g1 where rf: "random_float g = (u, g1)" by (cases "random_float g")
  show ?thesis
  proof (cases "u < rate")
    case True
    with assms rf obtain v where "individual' = individual" "h' = h[individual := v]"
      by (auto simp: mutate_store_def split: sum.splits if_splits)
    then show ?thesis by simp
  next
    case False
    with assms rf show ?thesis by (simp add: mutate_store_def)
  qed
qed

lemma reproduce_store_frame:
  "reproduce_store n weighted_choices population_size rate next_generation (h, g)
     = Inr (population', h', g') \<Longrightarrow>
   length h \<le> length h' \<and> (\<forall>r<length h. h' ! r = h ! r)
   \<and> (\<exists>children. population' = next_generation @ children
         \<and> length children = population_size - length next_generation
         \<and> (\<forall>c\<in>set children. length h \<le> c \<and> c < length h'))"
proof (induction n weighted_choices population_size rate next_generation "(h, g)"
    arbitrary: h g rule: reproduce_store.induct)
  case (1 n weighted_choices population_size rate next_generation h g)
  show ?case
  proof (cases "length next_generation < population_size")
    case False
    then show ?thesis using "1.prems" by (simp add: reproduce_store.simps)
  next
    case True
    from "1.prems" True obtain parents g1 where
      ch: "choices weighted_choices 2 g = Inr (parents, g1)"
      by (subst (asm) reproduce_store.simps) (auto split: sum.splits)
    have "length parents = 2" using choices_members[OF ch] by simp
    then obtain parent1 parent2 where ps: "parents = [parent1, parent2]"
      by (auto simp: length_Suc_conv numeral_2_eq_2)
    from "1.prems" True ch ps obtain child h2 g2 where
      cr: "crossover_store n parent1 parent2 (h, g1) = Inr (child, h2, g2)"
      by (subst (asm) reproduce_store.simps) (auto split: sum.splits)
    from "1.prems" True ch ps cr obtain child' h3 g3 where
      mu: "mutate_store n child rate (h2, g2) = Inr (child', h3, g3)"
      by (subst (asm) reproduce_store.simps) (auto split: sum.splits)
    have rec: "reproduce_store n weighted_choices population_size rate
        (next_generation @ [child']) (h3, g3) = Inr (population', h', g')"
      using "1.prems" True ch ps cr mu by (subst (asm) reproduce_store.simps) simp
    from crossover_store_frame[OF cr]
    have c: "child = length h" "length h2 = Suc (length h)" "\<forall>r<length h. h2 ! r = h ! r"
      by auto
    from mutate_store_frame[OF mu]
    have m: "child' = child" "length h3 = length h2" "\<forall>r. r \<noteq> child \<longrightarrow> h3 ! r = h2 ! r"
      by auto
    from "1.hyps"[OF True ch refl ps refl refl cr refl refl mu refl refl rec]
    obtain children where r: "length h3 \<le> length h'" "\<forall>r<length h3. h' ! r = h3 ! r"
      "population' = (next_generation @ [child']) @ children"
      "length children = population_size - length (next_generation @ [child'])"
      "\<forall>c\<in>set children. length h3 \<le> c \<and> c < length h'" by blast
    have "length h \<le> length h'" using r(1) m(2) c(2) by simp
    moreover have "\<forall>r<length h. h' ! r = h ! r"
      using r(2) m(2,3) c by simp
    moreover have "population' = next_generation @ (child' # children)" using r(3) by simp
    moreover have "length (child' # children) = population_size - length next_generation"
      using r(4) True by simp
    moreover have "\<forall>c\<in>set (child' # children). length h \<le> c \<and> c < length h'"
      using r(5) r(1) m(1,2) c(1,2) by auto
    ultimately show ?thesis by blast
  qed
qed

subsection \<open>The step on the store is the step on values\<close>

lemma fill_loop_store_sim:
  "child < length h \<Longrightarrow>
   fill_loop_store is child pos remaining h =
     (case fill_loop is (h ! child, pos) remaining of
        Inl e \<Rightarrow> Inl e
      | Inr (c, pos') \<Rightarrow> Inr (h[child := c], pos'))"
proof (induction "is" arbitrary: pos h)
  case Nil show ?case by simp
next
  case (Cons i rest)
  let ?h1 = "h[child := (h ! child)[i := remaining ! pos]]"
  have l1: "child < length ?h1" using Cons.prems by simp
  have n1: "?h1 ! child = (h ! child)[i := remaining ! pos]" using Cons.prems by simp
  have o1: "?h1[child := c] = h[child := c]" for c by simp
  show ?case
    using Cons.IH[OF l1, of "Suc pos"] Cons.IH[OF Cons.prems, of pos]
    by (auto simp: n1 split: sum.splits prod.splits)
qed

lemma crossover_store_sim:
  assumes "parent1 < length h" and "parent2 < length h"
  shows "crossover_store n parent1 parent2 (h, g) =
     (case crossover n (h ! parent1) (h ! parent2) g of
        Inl e \<Rightarrow> Inl e
      | Inr (c, g') \<Rightarrow> Inr (length h, h @ [c], g'))"
proof -
  let ?h1 = "h @ [replicate n (- 1)]"
  have a: "?h1 ! length h = replicate n (- 1)" "?h1 ! parent1 = h ! parent1"
    "?h1 ! parent2 = h ! parent2"
    using assms by (simp_all add: nth_append)
  have u: "?h1[length h := x] = h @ [x]" for x by simp
  have f: "fill_loop_store is (length h) pos remaining (h @ [x]) =
     (case fill_loop is (x, pos) remaining of
        Inl e \<Rightarrow> Inl e
      | Inr (c, pos') \<Rightarrow> Inr (h @ [c], pos'))" for "is" pos remaining x
    using fill_loop_store_sim[of "length h" "h @ [x]" "is" pos remaining]
    by (auto split: sum.splits prod.splits)
  show ?thesis
    unfolding crossover_store_def crossover_def crossover_at_def allocate_def
    by (simp add: a u f split: sum.splits prod.splits)
qed

lemma mutate_store_sim:
  "mutate_store n individual rate (h, g) =
     (case mutate n (h ! individual) rate g of
        Inl e \<Rightarrow> Inl e
      | Inr (v, g') \<Rightarrow> Inr (individual, h[individual := v], g'))"
  by (auto simp: mutate_store_def mutate_def split: sum.splits prod.splits)

lemma choices_map:
  "choices (map f population) k g =
     (case choices population k g of
        Inl e \<Rightarrow> Inl e
      | Inr (picks, g') \<Rightarrow> Inr (map f picks, g'))"
  by (induction k arbitrary: g) (auto split: sum.splits prod.splits)

lemma weighted_picks_map:
  "population \<noteq> [] \<Longrightarrow>
   weighted_picks (map f population) cum k g =
     (case weighted_picks population cum k g of (picks, g') \<Rightarrow> (map f picks, g'))"
proof (induction k arbitrary: g)
  case 0 show ?case by simp
next
  case (Suc k)
  have "bisect cum x (length population - 1) < length population" for x
    using bisect_le[of cum x "length population - 1"] Suc.prems
    by (metis One_nat_def Suc_pred le_imp_less_Suc length_greater_0_conv)
  then show ?case using Suc.IH[OF Suc.prems] by (simp split: prod.splits)
qed

lemma choices_weighted_map:
  "choices_weighted (map f population) weights k g =
     (case choices_weighted population weights k g of
        Inl e \<Rightarrow> Inl e
      | Inr (picks, g') \<Rightarrow> Inr (map f picks, g'))"
  by (auto simp: choices_weighted_def weighted_picks_map split: prod.splits)

lemma map_result_map: "map_result f (map g xs) = map_result (\<lambda>x. f (g x)) xs"
  by (induction xs) (auto split: sum.splits)

lemma insort_key_apsnd:
  "insort_key fst (k, f x) (map (apsnd f) zs) = map (apsnd f) (insort_key fst (k, x) zs)"
  by (induction zs) auto

lemma sort_key_apsnd:
  "sort_key fst (map (apsnd f) zs) = map (apsnd f) (sort_key fst zs)"
proof (induction zs)
  case Nil show ?case by simp
next
  case (Cons z zs)
  obtain k x where z: "z = (k, x)" by (cases z)
  show ?case unfolding z using Cons.IH by (simp add: insort_key_apsnd)
qed

lemma sorted_desc_map: "sorted_desc ks (map f xs) = map f (sorted_desc ks xs)"
proof -
  have "zip ks (map f xs) = map (apsnd f) (zip ks xs)"
    by (simp add: zip_map2 apsnd_def map_prod_def)
  then have "rev (zip ks (map f xs)) = map (apsnd f) (rev (zip ks xs))"
    by (simp add: rev_map)
  then show ?thesis
    unfolding sorted_desc_def by (simp add: sort_key_apsnd rev_map comp_def)
qed

lemma elites_map: "elites n ks (map f xs) = map f (elites n ks xs)"
  by (simp add: elites_def sorted_desc_map take_map)

lemma map_nth_append_valid:
  "\<forall>r\<in>set rs. r < length h \<Longrightarrow> map ((!) (h @ xs)) rs = map ((!) h) rs"
  by (induction rs) (auto simp: nth_append)

lemma reproduce_store_sim:
  "\<forall>r\<in>set weighted_choices. r < length h \<Longrightarrow> \<forall>r\<in>set next_generation. r < length h \<Longrightarrow>
   abstract_result (reproduce_store n weighted_choices population_size rate next_generation (h, g))
     = reproduce n (map ((!) h) weighted_choices) population_size rate
         (map ((!) h) next_generation) g"
proof (induction n weighted_choices population_size rate next_generation "(h, g)"
    arbitrary: h g rule: reproduce_store.induct)
  case (1 n weighted_choices population_size rate next_generation h g)
  let ?lhs = "reproduce_store n weighted_choices population_size rate next_generation (h, g)"
  let ?rhs = "reproduce n (map ((!) h) weighted_choices) population_size rate
         (map ((!) h) next_generation) g"
  show ?case
  proof (cases "length next_generation < population_size")
    case False
    then show ?thesis by (simp add: reproduce_store.simps reproduce.simps)
  next
    case True
    show ?thesis
    proof (cases "choices weighted_choices 2 g")
      case (Inl e)
      then show ?thesis using True
        by (simp add: reproduce_store.simps reproduce.simps choices_map)
    next
      case (Inr res)
      obtain parents g1 where ch: "choices weighted_choices 2 g = Inr (parents, g1)"
        using Inr by (cases res) auto
      have pm: "length parents = 2" "set parents \<subseteq> set weighted_choices"
        using choices_members[OF ch] by auto
      then obtain parent1 parent2 where ps: "parents = [parent1, parent2]"
        by (auto simp: length_Suc_conv numeral_2_eq_2)
      have pv: "parent1 < length h" "parent2 < length h"
        using pm(2) "1.prems"(1) unfolding ps by auto
      have l: "?lhs = (case crossover_store n parent1 parent2 (h, g1) of
                 Inl e \<Rightarrow> Inl e
               | Inr (child, h2, g2) \<Rightarrow>
                   (case mutate_store n child rate (h2, g2) of
                      Inl e \<Rightarrow> Inl e
                    | Inr (child', h3, g3) \<Rightarrow>
                        reproduce_store n weighted_choices population_size rate
                          (next_generation @ [child']) (h3, g3)))"
        using True ch ps by (subst reproduce_store.simps) simp
      have r: "?rhs = (case crossover n (h ! parent1) (h ! parent2) g1 of
                 Inl e \<Rightarrow> Inl e
               | Inr (child, g2) \<Rightarrow>
                   (case mutate n child rate g2 of
                      Inl e \<Rightarrow> Inl e
                    | Inr (child', g3) \<Rightarrow>
                        reproduce n (map ((!) h) weighted_choices) population_size rate
                          (map ((!) h) next_generation @ [child']) g3))"
        using True ch ps by (subst reproduce.simps) (simp add: choices_map)
      show ?thesis
      proof (cases "crossover n (h ! parent1) (h ! parent2) g1")
        case (Inl e)
        then show ?thesis unfolding l r by (simp add: crossover_store_sim[OF pv])
      next
        case (Inr cres)
        obtain c g2 where cr: "crossover n (h ! parent1) (h ! parent2) g1 = Inr (c, g2)"
          using Inr by (cases cres) auto
        have crs: "crossover_store n parent1 parent2 (h, g1) = Inr (length h, h @ [c], g2)"
          using cr by (simp add: crossover_store_sim[OF pv])
        show ?thesis
        proof (cases "mutate n c rate g2")
          case (Inl e)
          then show ?thesis unfolding l r by (simp add: crs cr mutate_store_sim)
        next
          case (Inr mres)
          obtain v g3 where mu: "mutate n c rate g2 = Inr (v, g3)"
            using Inr by (cases mres) auto
          have mus: "mutate_store n (length h) rate (h @ [c], g2)
              = Inr (length h, h @ [v], g3)"
            using mu by (simp add: mutate_store_sim)
          have w: "\<forall>r\<in>set weighted_choices. r < length (h @ [v])"
            using "1.prems"(1) by auto
          have n: "\<forall>r\<in>set (next_generation @ [length h]). r < length (h @ [v])"
            using "1.prems"(2) by auto
          have ih: "abstract_result (reproduce_store n weighted_choices population_size rate
                (next_generation @ [length h]) (h @ [v], g3))
              = reproduce n (map ((!) (h @ [v])) weighted_choices) population_size rate
                  (map ((!) (h @ [v])) (next_generation @ [length h])) g3"
            by (rule "1.hyps"[OF True ch refl ps refl refl crs refl refl mus refl refl w n])
          have me: "map ((!) (h @ [v])) weighted_choices = map ((!) h) weighted_choices"
            "map ((!) (h @ [v])) next_generation = map ((!) h) next_generation"
            using "1.prems" by (simp_all only: map_nth_append_valid)
          have "map ((!) (h @ [v])) (next_generation @ [length h])
              = map ((!) h) next_generation @ [v]"
            unfolding map_append me(2) by simp
          then have ih': "abstract_result (reproduce_store n weighted_choices population_size rate
                (next_generation @ [length h]) (h @ [v], g3))
              = reproduce n (map ((!) h) weighted_choices) population_size rate
                  (map ((!) h) next_generation @ [v]) g3"
            using ih unfolding me(1) by (simp only:)
          show ?thesis unfolding l r by (simp add: crs cr mus mu ih')
        qed
      qed
    qed
  qed
qed

lemma generation_store_sim:
  assumes "\<forall>r\<in>set population. r < length h"
  shows "abstract_result (generation_store coordinates population_size rate (population, h, g))
     = generation coordinates population_size rate (map ((!) h) population, g)"
proof -
  let ?fit = "map_result (\<lambda>individual. fitness coordinates (h ! individual)) population"
  have mr: "map_result (fitness coordinates) (map ((!) h) population) = ?fit"
    by (simp add: map_result_map)
  show ?thesis
  proof (cases ?fit)
    case (Inl e)
    then show ?thesis by (simp add: generation_store_def generation_def mr)
  next
    case (Inr fs)
    show ?thesis
    proof (cases "choices_weighted population fs population_size g")
      case (Inl e)
      then show ?thesis
        using Inr by (simp add: generation_store_def generation_def mr choices_weighted_map)
    next
      case cw: (Inr res)
      obtain weighted_choices g1 where
        c: "choices_weighted population fs population_size g = Inr (weighted_choices, g1)"
        using cw by (cases res) auto
      have wv: "\<forall>r\<in>set weighted_choices. r < length h"
        using choices_weighted_members[OF c] assms by auto
      have len: "length fs = length population" using map_result_length[OF Inr] .
      have ev: "\<forall>r\<in>set (elites population_size fs population). r < length h"
        using elites_subset[OF len, of population_size] assms by auto
      show ?thesis
        using Inr c reproduce_store_sim[OF wv ev, of "length coordinates" population_size rate g1]
        by (simp add: generation_store_def generation_def mr choices_weighted_map elites_map)
    qed
  qed
qed

subsection \<open>The frame of a generation\<close>

lemma generation_store_Inr:
  assumes "generation_store coordinates population_size rate (population, h, g)
      = Inr (population', h', g')"
  shows "\<exists>fs weighted_choices g1.
      map_result (\<lambda>individual. fitness coordinates (h ! individual)) population = Inr fs
    \<and> choices_weighted population fs population_size g = Inr (weighted_choices, g1)
    \<and> reproduce_store (length coordinates) weighted_choices population_size rate
          (elites population_size fs population) (h, g1) = Inr (population', h', g')"
  using assms by (auto simp: generation_store_def split: sum.splits)

lemma line4_generation_store:
  "generation_store line4 1 1 ([0], [[1, 2, 3, 0]], [])
     = Inr ([1], [[1, 2, 3, 0], [2, 1, 3, 0]], [])"
proof -
  have cw: "choices_weighted [0::nat] [1 / 6] (Suc 0) [] = Inr ([0], [])"
    using choices_weighted_Nil[of "[0::nat]" "[1 / 6]" "Suc 0"] by simp
  have el: "elites (Suc 0) [1 / 6] [0::nat] = []"
    by (simp add: elites_def elite_size_def)
  have cr: "crossover_store 4 0 0 ([[1, 2, 3, 0]], []) = Inr (1, [[1, 2, 3, 0], [1, 2, 3, 0]], [])"
    using crossover_store_sim[of 0 "[[1, 2, 3, 0]]" 0 4 "[]"] by (simp add: line4_crossover)
  have mu: "mutate_store 4 1 1 ([[1, 2, 3, 0], [1, 2, 3, 0]], [])
      = Inr (1, [[1, 2, 3, 0], [2, 1, 3, 0]], [])"
    using mutate_store_sim[of 4 1 1 "[[1, 2, 3, 0], [1, 2, 3, 0]]" "[]"] by (simp add: line4_mutate)
  have rp: "reproduce_store 4 [0] (Suc 0) 1 [] ([[1, 2, 3, 0]], [])
      = Inr ([1], [[1, 2, 3, 0], [2, 1, 3, 0]], [])"
    using cr mu by (simp add: reproduce_store.simps choices_Nil)
  have "generation_store line4 (Suc 0) 1 ([0], [[1, 2, 3, 0]], [])
     = Inr ([1], [[1, 2, 3, 0], [2, 1, 3, 0]], [])"
    unfolding generation_store_def
    by (simp add: line4_fitness cw el length_line4 rp)
  then show ?thesis by simp
qed

text \<open>
  Claim C10. A generation step modifies no list object that existed before it, so no
  individual of the current population: the crossover writes only to the child it
  allocates, and \<open>mutate\<close> only to that child. The next population begins with the
  elites, which are references into the current population and denote the same values
  as before; every other member is a fresh object. Read through the store, the step is
  the generation step on values.
\<close>

theorem generation_frame:
  assumes gen: "generation_store coordinates population_size rate (population, h, g)
      = Inr (population', h', g')"
    and v: "\<forall>r\<in>set population. r < length h"
  shows "(\<forall>r<length h. h' ! r = h ! r)
    \<and> (\<forall>r\<in>set population. h' ! r = h ! r)
    \<and> (\<exists>fs. map_result (\<lambda>individual. fitness coordinates (h ! individual)) population = Inr fs
         \<and> take (length (elites population_size fs population)) population'
              = elites population_size fs population
         \<and> set (elites population_size fs population) \<subseteq> set population
         \<and> (\<forall>r\<in>set (elites population_size fs population). h' ! r = h ! r)
         \<and> (\<forall>c\<in>set (drop (length (elites population_size fs population)) population').
               length h \<le> c \<and> c < length h'))
    \<and> generation coordinates population_size rate (map ((!) h) population, g)
         = Inr (map ((!) h') population', g')"
proof -
  from generation_store_Inr[OF gen] obtain fs weighted_choices g1 where
    fs: "map_result (\<lambda>individual. fitness coordinates (h ! individual)) population = Inr fs"
    and rp: "reproduce_store (length coordinates) weighted_choices population_size rate
          (elites population_size fs population) (h, g1) = Inr (population', h', g')"
    by blast
  let ?e = "elites population_size fs population"
  from reproduce_store_frame[OF rp] obtain children where
    fr: "\<forall>r<length h. h' ! r = h ! r"
    and p': "population' = ?e @ children"
    and ch: "\<forall>c\<in>set children. length h \<le> c \<and> c < length h'"
    by blast
  have len: "length fs = length population" using map_result_length[OF fs] .
  have sub: "set ?e \<subseteq> set population" using elites_subset[OF len] .
  have pop: "\<forall>r\<in>set population. h' ! r = h ! r" using fr v by simp
  have el: "\<forall>r\<in>set ?e. h' ! r = h ! r" using pop sub by blast
  have tk: "take (length ?e) population' = ?e" unfolding p' by simp
  have dr: "drop (length ?e) population' = children" unfolding p' by simp
  have sim: "generation coordinates population_size rate (map ((!) h) population, g)
         = Inr (map ((!) h') population', g')"
    using generation_store_sim[OF v, of coordinates population_size rate g] gen by simp
  have ex: "\<exists>fs. map_result (\<lambda>individual. fitness coordinates (h ! individual)) population = Inr fs
         \<and> take (length (elites population_size fs population)) population'
              = elites population_size fs population
         \<and> set (elites population_size fs population) \<subseteq> set population
         \<and> (\<forall>r\<in>set (elites population_size fs population). h' ! r = h ! r)
         \<and> (\<forall>c\<in>set (drop (length (elites population_size fs population)) population').
               length h \<le> c \<and> c < length h')"
  proof (intro exI[of _ fs] conjI)
    show "\<forall>c\<in>set (drop (length ?e) population'). length h \<le> c \<and> c < length h'"
      unfolding dr by (rule ch)
  qed (rule fs tk sub el)+
  show ?thesis
  proof (intro conjI)
    show "\<forall>r<length h. h' ! r = h ! r" by (rule fr)
    show "\<forall>r\<in>set population. h' ! r = h ! r" by (rule pop)
    show "generation coordinates population_size rate (map ((!) h) population, g)
         = Inr (map ((!) h') population', g')" by (rule sim)
  qed (rule ex)
qed

theorem generation_frame_witness:
  "generation_store line4 1 1 ([0], [[1, 2, 3, 0]], [])
     = Inr ([1], [[1, 2, 3, 0], [2, 1, 3, 0]], [])
   \<and> (0::nat) < length [[1, 2, 3, 0 :: int]]
   \<and> [[1, 2, 3, 0], [2, 1, 3, 0]] ! 0 = [[1, 2, 3, 0 :: int]] ! 0
   \<and> generation line4 1 1 (map ((!) [[1, 2, 3, 0]]) [0], [])
        = Inr (map ((!) [[1, 2, 3, 0], [2, 1, 3, 0]]) [1], [])"
proof -
  have v: "\<forall>r\<in>set [0::nat]. r < length [[1, 2, 3, 0 :: int]]" by simp
  note t = generation_frame[OF line4_generation_store v]
  have "\<forall>r\<in>set [0::nat]. [[1, 2, 3, 0], [2, 1, 3, 0]] ! r = [[1, 2, 3, 0 :: int]] ! r"
    by (rule t[THEN conjunct2, THEN conjunct1])
  moreover have "generation line4 1 1 (map ((!) [[1, 2, 3, 0]]) [0], [])
        = Inr (map ((!) [[1, 2, 3, 0], [2, 1, 3, 0]]) [1], [])"
    by (rule t[THEN conjunct2, THEN conjunct2, THEN conjunct2])
  ultimately have "[[1, 2, 3, 0], [2, 1, 3, 0]] ! 0 = [[1, 2, 3, 0 :: int]] ! 0"
    "generation line4 1 1 (map ((!) [[1, 2, 3, 0]]) [0], [])
        = Inr (map ((!) [[1, 2, 3, 0], [2, 1, 3, 0]]) [1], [])"
    by simp_all
  then show ?thesis using line4_generation_store by (intro conjI) simp_all
qed

end
